theory Spec2Isabelle
  imports Main "HOL-Library.AList" "HOL-Library.Sublist"
begin

section \<open>The bundle registry of \<^verbatim>\<open>src/bundles/bundle-registry.js\<close>\<close>

text \<open>
  The registry keeps four JavaScript objects used as dictionaries and reacts to the
  notifications of the asset registry. Four things decide how it is modelled.

  \<^item> Arrays are shared: \<^verbatim>\<open>_urlsInBundles[url] = _assetsInBundles[asset.id]\<close> stores the
    \<^emph>\<open>same\<close> array under two keys, and \<^verbatim>\<open>_onAssetRemoved\<close> compares arrays with
    \<^verbatim>\<open>===\<close>. The arrays therefore live in an explicit store, addressed by references,
    and the two dictionaries hold references.
  \<^item> Bundles are asset objects, compared by identity (\<^verbatim>\<open>indexOf\<close>) and read when a
    request is resolved (\<^verbatim>\<open>loaded\<close>, \<^verbatim>\<open>loading\<close>, \<^verbatim>\<open>resource\<close>). Asset objects live in a
    second store, which only the asset registry writes.
  \<^item> Continuations are opaque: a call of one is recorded in a trace, in the order of the
    calls. A continuation that calls back into the registry, or throws, is outside the model.
  \<^item> A call of the registry that throws is \<open>Inl\<close> of the error (a \<^verbatim>\<open>TypeError\<close> for a property
    read of \<^verbatim>\<open>null\<close>, a \<^verbatim>\<open>URIError\<close> of \<^verbatim>\<open>decodeURIComponent\<close>); what the call had changed
    before it threw is not kept.

  A JavaScript object used as a dictionary is an association list with distinct keys in
  insertion order: \<^verbatim>\<open>o[k] = v\<close> is \<^const>\<open>AList.update\<close> (in place, or appended), \<^verbatim>\<open>delete o[k]\<close>
  is \<^const>\<open>AList.delete\<close>, \<^verbatim>\<open>o[k]\<close> is \<^const>\<open>map_of\<close>, and \<^verbatim>\<open>for (k in o)\<close> walks the keys from
  the front. Only own properties are modelled (a URL such as \<^verbatim>\<open>constructor\<close> is taken to be
  an ordinary key), and the order in which \<^verbatim>\<open>for-in\<close> visits integer-like keys, which the
  language leaves to the engine, is insertion order here.
\<close>

subsection \<open>Strings: what the JavaScript built-ins compute\<close>

text \<open>\<^verbatim>\<open>i + '.png'\<close>: a page index printed in decimal.\<close>

definition digit_char :: "nat \<Rightarrow> char" where
  "digit_char d = ''0123456789'' ! d"

fun string_of_nat :: "nat \<Rightarrow> string" where
  "string_of_nat n =
     (if n < 10 then [digit_char n]
      else string_of_nat (n div 10) @ [digit_char (n mod 10)])"

declare string_of_nat.simps [simp del]

text \<open>
  \<^verbatim>\<open>String.prototype.replace(pattern, replacement)\<close> with a string pattern: the first
  occurrence of the pattern is replaced, and a string without the pattern is returned as
  it is. (The replacements built by the registry hold no \<^verbatim>\<open>$\<close>.)
\<close>

fun replace :: "string \<Rightarrow> string \<Rightarrow> string \<Rightarrow> string" where
  "replace pat rep [] = (if pat = [] then rep else [])"
| "replace pat rep (c # cs) =
     (if prefix pat (c # cs) then rep @ drop (length pat) (c # cs)
      else c # replace pat rep cs)"

text \<open>
  \<^verbatim>\<open>decodeURIComponent\<close>. Strings are byte lists (UTF-8), so an escape sequence is replaced
  by its bytes; the built-in throws \<^verbatim>\<open>URIError\<close> (here \<^const>\<open>None\<close>) when a \<^verbatim>\<open>%\<close> is not
  followed by two hexadecimal digits or when the escaped bytes are not the UTF-8 encoding
  of one code point.
\<close>

definition hexval :: "char \<Rightarrow> nat option" where
  "hexval c =
     (let n = (of_char c :: nat) in
      if 48 \<le> n \<and> n \<le> 57 then Some (n - 48)
      else if 65 \<le> n \<and> n \<le> 70 then Some (n - 55)
      else if 97 \<le> n \<and> n \<le> 102 then Some (n - 87)
      else None)"

definition hex2 :: "char \<Rightarrow> char \<Rightarrow> nat option" where
  "hex2 h l =
     (case hexval h of None \<Rightarrow> None
      | Some a \<Rightarrow> (case hexval l of None \<Rightarrow> None | Some b \<Rightarrow> Some (16 * a + b)))"

definition continuation_octet :: "nat \<Rightarrow> bool" where
  "continuation_octet b \<longleftrightarrow> 128 \<le> b \<and> b \<le> 191"

fun valid_utf8 :: "nat list \<Rightarrow> bool" where
  "valid_utf8 [b0, b1] \<longleftrightarrow> 194 \<le> b0 \<and> b0 \<le> 223 \<and> continuation_octet b1"
| "valid_utf8 [b0, b1, b2] \<longleftrightarrow>
     continuation_octet b2 \<and>
     (if b0 = 224 then 160 \<le> b1 \<and> b1 \<le> 191
      else if b0 = 237 then 128 \<le> b1 \<and> b1 \<le> 159
      else 225 \<le> b0 \<and> b0 \<le> 239 \<and> continuation_octet b1)"
| "valid_utf8 [b0, b1, b2, b3] \<longleftrightarrow>
     continuation_octet b2 \<and> continuation_octet b3 \<and>
     (if b0 = 240 then 144 \<le> b1 \<and> b1 \<le> 191
      else if b0 = 244 then 128 \<le> b1 \<and> b1 \<le> 143
      else 241 \<le> b0 \<and> b0 \<le> 243 \<and> continuation_octet b1)"
| "valid_utf8 _ \<longleftrightarrow> False"

text \<open>
  \<open>decode octets k s\<close>: \<open>k\<close> escaped continuation octets are still due for the code point
  whose first octets are \<open>octets\<close>.
\<close>

fun decode :: "nat list \<Rightarrow> nat \<Rightarrow> string \<Rightarrow> string option" where
  "decode octets k [] = (if k = 0 then Some [] else None)"
| "decode octets k (c # cs) =
     (if c \<noteq> CHR ''%'' then
        (if k = 0 then map_option ((#) c) (decode [] 0 cs) else None)
      else
        (case cs of
           h # l # rest \<Rightarrow>
             (case hex2 h l of
                None \<Rightarrow> None
              | Some b \<Rightarrow>
                  if k = 0 then
                    (if b < 128 then map_option ((#) (char_of b)) (decode [] 0 rest)
                     else if b < 192 \<or> 248 \<le> b then None
                     else decode [b] (if b < 224 then 1 else if b < 240 then 2 else 3) rest)
                  else if \<not> continuation_octet b then None
                  else if k = 1 then
                    (if valid_utf8 (octets @ [b])
                     then map_option ((@) (map char_of (octets @ [b]))) (decode [] 0 rest)
                     else None)
                  else decode (octets @ [b]) (k - 1) rest)
         | _ \<Rightarrow> None))"

definition decodeURIComponent :: "string \<Rightarrow> string option" where
  "decodeURIComponent s = decode [] 0 s"

subsection \<open>Objects and state\<close>

type_synonym asset_ref = nat
type_synonym array_ref = nat
type_synonym resource_ref = nat
type_synonym callback = nat

text \<open>
  The asset shape the registry reads. \<open>asset_id\<close> is the id as JavaScript coerces it
  wherever the registry uses it (a property key, a string concatenation); \<open>getFileUrl\<close> is
  what the method returns, \<^const>\<open>None\<close> for \<^verbatim>\<open>null\<close> or \<^verbatim>\<open>undefined\<close>; \<open>data_assets\<close> is
  \<^verbatim>\<open>data.assets\<close> and \<open>data_info_maps_length\<close> is \<^verbatim>\<open>data.info.maps.length\<close>, taken to be there
  for every asset; \<open>resource\<close> is \<^const>\<open>None\<close> when the property is \<^verbatim>\<open>null\<close>.
\<close>

record asset =
  asset_id :: string
  asset_type :: string
  data_assets :: "string list"
  data_info_maps_length :: nat
  getFileUrl :: "string option"
  loaded :: bool
  loading :: bool
  resource :: "resource_ref option"

text \<open>\<^verbatim>\<open>resource.getBlobUrl(path)\<close> is the bundle decoder's; its result is kept symbolic.\<close>

datatype handle = BlobUrl resource_ref string

text \<open>\<^verbatim>\<open>callback(err)\<close> is \<open>Call cb (Some err) None\<close>; \<^verbatim>\<open>callback(null, h)\<close> is \<open>Call cb None (Some h)\<close>.\<close>

datatype call = Call callback "string option" "handle option"

datatype error = TypeError | URIError

datatype handler = OnAssetAdded | OnAssetRemoved | OnBundleLoaded | OnBundleError

record state =
  asset_objects :: "asset_ref \<Rightarrow> asset"
  assets_get :: "string \<Rightarrow> asset_ref option"
  assets_callbacks :: "(string \<times> handler) list"
  arrays :: "array_ref \<Rightarrow> asset_ref list"
  next_array :: array_ref
  bundleAssets :: "(string \<times> asset_ref) list"
  assetsInBundles :: "(string \<times> array_ref) list"
  urlsInBundles :: "(string \<times> array_ref) list"
  fileRequests :: "(string \<times> callback list) list"
  calls :: "call list"

text \<open>
  \<open>asset_objects\<close> is the store of asset objects, \<open>assets_get\<close> and \<open>assets_callbacks\<close> are
  \<^verbatim>\<open>this._assets\<close> (its \<^verbatim>\<open>get\<close> and its listeners); \<open>arrays\<close> is the store of the arrays that
  \<^verbatim>\<open>_indexAssetInBundle\<close> creates, \<open>next_array\<close> the next fresh reference; the four
  dictionaries follow; \<open>calls\<close> is the trace of continuation calls, oldest first.
\<close>

text \<open>
  Modelled from the spec: \<^verbatim>\<open>on\<close> and \<^verbatim>\<open>off\<close> of the asset registry (its event mixin is not
  among the sources). The interface is "subscribe/unsubscribe": \<^verbatim>\<open>on\<close> adds a listener for an
  event name, \<^verbatim>\<open>off\<close> removes the listener from that event name.
\<close>

definition on :: "string \<Rightarrow> handler \<Rightarrow> (string \<times> handler) list \<Rightarrow> (string \<times> handler) list" where
  "on name h cbs = cbs @ [(name, h)]"

definition off :: "string \<Rightarrow> handler \<Rightarrow> (string \<times> handler) list \<Rightarrow> (string \<times> handler) list" where
  "off name h cbs = filter (\<lambda>e. e \<noteq> (name, h)) cbs"

definition subscribed :: "(string \<times> handler) list \<Rightarrow> string \<Rightarrow> handler \<Rightarrow> bool" where
  "subscribed cbs name h \<longleftrightarrow> (name, h) \<in> set cbs"

subsection \<open>The registry\<close>

text \<open>The constructor: empty indices, and the two global subscriptions.\<close>

definition BundleRegistry ::
  "(asset_ref \<Rightarrow> asset) \<Rightarrow> (string \<Rightarrow> asset_ref option) \<Rightarrow> (string \<times> handler) list \<Rightarrow> state" where
  "BundleRegistry objs get cbs =
     \<lparr> asset_objects = objs, assets_get = get,
       assets_callbacks = on ''remove'' OnAssetRemoved (on ''add'' OnAssetAdded cbs),
       arrays = (\<lambda>_. []), next_array = 0,
       bundleAssets = [], assetsInBundles = [], urlsInBundles = [], fileRequests = [],
       calls = [] \<rparr>"

definition normalizeUrl :: "string \<Rightarrow> string" where
  "normalizeUrl url = takeWhile (\<lambda>c. c \<noteq> CHR ''?'') url"

definition getAssetFileUrls :: "asset \<Rightarrow> string list option" where
  "getAssetFileUrls a =
     (case getFileUrl a of
        None \<Rightarrow> None
      | Some u \<Rightarrow>
          if u = [] then None
          else
            let url = normalizeUrl u in
            Some (if asset_type a = ''font''
                  then url # map (\<lambda>i. replace ''.png'' (string_of_nat i @ ''.png'') url)
                                 [1 ..< data_info_maps_length a]
                  else [url]))"

text \<open>
  \<^verbatim>\<open>this._urlsInBundles[url] = this._assetsInBundles[asset.id]\<close>. At both call sites the
  asset id has just been looked up in, or put into, the index of asset ids. Were the
  right-hand side \<^verbatim>\<open>undefined\<close>, every reader of the URL index would take the entry for
  absent, which is what deleting the key gives.
\<close>

definition setUrl :: "string \<Rightarrow> array_ref option \<Rightarrow> state \<Rightarrow> state" where
  "setUrl url v s =
     (case v of
        Some r \<Rightarrow> s\<lparr>urlsInBundles := AList.update url r (urlsInBundles s)\<rparr>
      | None \<Rightarrow> s\<lparr>urlsInBundles := AList.delete url (urlsInBundles s)\<rparr>)"

definition indexAssetFileUrls :: "state \<Rightarrow> asset_ref \<Rightarrow> state" where
  "indexAssetFileUrls s a =
     (case getAssetFileUrls (asset_objects s a) of
        None \<Rightarrow> s
      | Some urls \<Rightarrow>
          fold (\<lambda>url s'. setUrl url (map_of (assetsInBundles s') (asset_id (asset_objects s' a))) s')
               urls s)"

definition indexAssetInBundle :: "state \<Rightarrow> string \<Rightarrow> asset_ref \<Rightarrow> state" where
  "indexAssetInBundle s assetId bundleAsset =
     (let s1 =
        (case map_of (assetsInBundles s) assetId of
           None \<Rightarrow>
             s\<lparr>arrays := (arrays s)(next_array s := [bundleAsset]),
               next_array := Suc (next_array s),
               assetsInBundles := AList.update assetId (next_array s) (assetsInBundles s)\<rparr>
         | Some r \<Rightarrow>
             if bundleAsset \<in> set (arrays s r) then s
             else s\<lparr>arrays := (arrays s)(r := arrays s r @ [bundleAsset])\<rparr>)
      in case assets_get s1 assetId of
           None \<Rightarrow> s1
         | Some a \<Rightarrow> indexAssetFileUrls s1 a)"

definition onAssetAdded :: "state \<Rightarrow> asset_ref \<Rightarrow> state" where
  "onAssetAdded s a =
     (let asset = asset_objects s a in
      if asset_type asset = ''bundle'' then
        fold (\<lambda>assetId s'. indexAssetInBundle s' assetId a) (data_assets asset)
          (s\<lparr>bundleAssets := AList.update (asset_id asset) a (bundleAssets s),
             assets_callbacks :=
               on (''error:'' @ asset_id asset) OnBundleError
                 (on (''load:'' @ asset_id asset) OnBundleLoaded (assets_callbacks s))\<rparr>)
      else if map_of (assetsInBundles s) (asset_id asset) \<noteq> None then indexAssetFileUrls s a
      else s)"

text \<open>
  One round of the loop \<^verbatim>\<open>for (id in this._assetsInBundles)\<close> of \<^verbatim>\<open>_onAssetRemoved\<close>:
  \<^verbatim>\<open>splice(indexOf(asset), 1)\<close> takes the first occurrence out of the shared array, and an
  array that is empty afterwards loses its asset id and every URL that holds this very array.
\<close>

definition removeBundleFromAsset :: "asset_ref \<Rightarrow> string \<Rightarrow> state \<Rightarrow> state" where
  "removeBundleFromAsset b ident s =
     (case map_of (assetsInBundles s) ident of
        None \<Rightarrow> s
      | Some r \<Rightarrow>
          if b \<in> set (arrays s r) then
            let s1 = s\<lparr>arrays := (arrays s)(r := remove1 b (arrays s r))\<rparr> in
            if arrays s1 r = [] then
              s1\<lparr>assetsInBundles := AList.delete ident (assetsInBundles s1),
                 urlsInBundles := filter (\<lambda>e. snd e \<noteq> r) (urlsInBundles s1)\<rparr>
            else s1
          else s)"

definition onAssetRemoved :: "state \<Rightarrow> asset_ref \<Rightarrow> error + state" where
  "onAssetRemoved s a =
     (let asset = asset_objects s a in
      if asset_type asset = ''bundle'' then
        let s1 = s\<lparr>bundleAssets := AList.delete (asset_id asset) (bundleAssets s),
                   assets_callbacks :=
                     off (''error:'' @ asset_id asset) OnBundleError
                       (off (''load:'' @ asset_id asset) OnBundleLoaded (assets_callbacks s))\<rparr>
        in Inr (fold (removeBundleFromAsset a) (map fst (assetsInBundles s1)) s1)
      else if map_of (assetsInBundles s) (asset_id asset) \<noteq> None then
        let s1 = s\<lparr>assetsInBundles := AList.delete (asset_id asset) (assetsInBundles s)\<rparr> in
        (case getAssetFileUrls asset of
           None \<Rightarrow> Inl TypeError
         | Some urls \<Rightarrow>
             Inr (fold (\<lambda>url s'. s'\<lparr>urlsInBundles := AList.delete url (urlsInBundles s')\<rparr>) urls s1))
      else Inr s)"

definition findLoadedOrLoadingBundleForUrl :: "state \<Rightarrow> string \<Rightarrow> asset_ref option" where
  "findLoadedOrLoadingBundleForUrl s url =
     (case map_of (urlsInBundles s) url of
        None \<Rightarrow> None
      | Some r \<Rightarrow>
          (case find (\<lambda>b. loaded (asset_objects s b) \<and> resource (asset_objects s b) \<noteq> None)
                     (arrays s r) of
             Some b \<Rightarrow> Some b
           | None \<Rightarrow> find (\<lambda>b. loading (asset_objects s b)) (arrays s r)))"

text \<open>The inner loops: every queued continuation is called, from the front of the queue.\<close>

fun failRequests :: "string \<Rightarrow> callback list \<Rightarrow> state \<Rightarrow> state" where
  "failRequests err [] s = s"
| "failRequests err (cb # cbs) s =
     failRequests err cbs (s\<lparr>calls := calls s @ [Call cb (Some err) None]\<rparr>)"

fun resolveRequests :: "resource_ref \<Rightarrow> string \<Rightarrow> callback list \<Rightarrow> state \<Rightarrow> error + state" where
  "resolveRequests res url [] s = Inr s"
| "resolveRequests res url (cb # cbs) s =
     (case decodeURIComponent url of
        None \<Rightarrow> Inl URIError
      | Some path \<Rightarrow>
          resolveRequests res url cbs
            (s\<lparr>calls := calls s @ [Call cb None (Some (BlobUrl res path))]\<rparr>))"

text \<open>
  One round of \<^verbatim>\<open>for (url in this._fileRequests)\<close> of \<^verbatim>\<open>_onBundleError\<close>. The loop deletes
  the key it stands on and no other, so the keys it visits are the keys at its start.
\<close>

definition failUrl :: "string \<Rightarrow> string \<Rightarrow> state \<Rightarrow> state" where
  "failUrl err url s =
     (case findLoadedOrLoadingBundleForUrl s url of
        Some b \<Rightarrow> s
      | None \<Rightarrow>
          (case map_of (fileRequests s) url of
             None \<Rightarrow> s
           | Some requests \<Rightarrow>
               (let s1 = failRequests err requests s
                in s1\<lparr>fileRequests := AList.delete url (fileRequests s1)\<rparr>)))"

definition onBundleError :: "state \<Rightarrow> string \<Rightarrow> asset_ref \<Rightarrow> state" where
  "onBundleError s err bundleAsset = fold (failUrl err) (map fst (fileRequests s)) s"

text \<open>One round of \<^verbatim>\<open>for (url in this._fileRequests)\<close> of \<^verbatim>\<open>_onBundleLoaded\<close>.\<close>

definition resolveUrl :: "asset_ref \<Rightarrow> resource_ref \<Rightarrow> string \<Rightarrow> state \<Rightarrow> error + state" where
  "resolveUrl bundleAsset res url s =
     (case map_of (urlsInBundles s) url of
        None \<Rightarrow> Inr s
      | Some r \<Rightarrow>
          if bundleAsset \<notin> set (arrays s r) then Inr s
          else
            (case map_of (fileRequests s) url of
               None \<Rightarrow> Inr s
             | Some requests \<Rightarrow>
                 (case resolveRequests res url requests s of
                    Inl e \<Rightarrow> Inl e
                  | Inr s1 \<Rightarrow> Inr (s1\<lparr>fileRequests := AList.delete url (fileRequests s1)\<rparr>))))"

fun resolveUrls :: "asset_ref \<Rightarrow> resource_ref \<Rightarrow> string list \<Rightarrow> state \<Rightarrow> error + state" where
  "resolveUrls bundleAsset res [] s = Inr s"
| "resolveUrls bundleAsset res (url # urls) s =
     (case resolveUrl bundleAsset res url s of
        Inl e \<Rightarrow> Inl e
      | Inr s1 \<Rightarrow> resolveUrls bundleAsset res urls s1)"

definition onBundleLoaded :: "state \<Rightarrow> asset_ref \<Rightarrow> error + state" where
  "onBundleLoaded s bundleAsset =
     (case resource (asset_objects s bundleAsset) of
        None \<Rightarrow>
          Inr (onBundleError s
                 (''Bundle '' @ asset_id (asset_objects s bundleAsset) @ '' failed to load'')
                 bundleAsset)
      | Some res \<Rightarrow> resolveUrls bundleAsset res (map fst (fileRequests s)) s)"


definition list_bundles :: "state \<Rightarrow> asset_ref list" where
  "list_bundles s = map snd (bundleAssets s)"


definition canLoadUrl :: "state \<Rightarrow> string \<Rightarrow> bool" where
  "canLoadUrl s url \<longleftrightarrow> findLoadedOrLoadingBundleForUrl s url \<noteq> None"

definition loadUrl :: "state \<Rightarrow> string \<Rightarrow> callback \<Rightarrow> error + state" where
  "loadUrl s url cb =
     (case findLoadedOrLoadingBundleForUrl s url of
        None \<Rightarrow>
          Inr (s\<lparr>calls := calls s @ [Call cb (Some (''URL '' @ url @ '' not found in any bundles'')) None]\<rparr>)
      | Some b \<Rightarrow>
          if loaded (asset_objects s b) then
            (case resource (asset_objects s b) of
               None \<Rightarrow> Inl TypeError
             | Some res \<Rightarrow>
                 (case decodeURIComponent url of
                    None \<Rightarrow> Inl URIError
                  | Some path \<Rightarrow>
                      Inr (s\<lparr>calls := calls s @ [Call cb None (Some (BlobUrl res path))]\<rparr>)))
          else
            (case map_of (fileRequests s) url of
               Some requests \<Rightarrow>
                 Inr (s\<lparr>fileRequests := AList.update url (requests @ [cb]) (fileRequests s)\<rparr>)
             | None \<Rightarrow>
                 Inr (s\<lparr>fileRequests := AList.update url [cb] (fileRequests s)\<rparr>)))"

text \<open>
  \<^verbatim>\<open>destroy\<close> sets the five fields of the registry to \<^verbatim>\<open>null\<close>; what is left to observe is
  the listener table of the asset registry, which the function returns.
\<close>

definition destroy :: "state \<Rightarrow> (string \<times> handler) list" where
  "destroy s =
     fold (\<lambda>ident cbs. on (''error:'' @ ident) OnBundleError (on (''load:'' @ ident) OnBundleLoaded cbs))
       (map fst (bundleAssets s))
       (off ''remove'' OnAssetRemoved (off ''add'' OnAssetAdded (assets_callbacks s)))"

subsection \<open>Auxiliary notions for the statements\<close>

text \<open>
  What \<^verbatim>\<open>_onBundleError\<close> calls for one queue entry: nothing when a bundle that is loaded
  or loading still covers the URL, every queued continuation with the error otherwise.
\<close>

definition failed_calls :: "state \<Rightarrow> string \<Rightarrow> string \<Rightarrow> callback list \<Rightarrow> call list" where
  "failed_calls s err url requests =
     (if findLoadedOrLoadingBundleForUrl s url = None
      then map (\<lambda>cb. Call cb (Some err) None) requests else [])"





text \<open>The arrays that the asset ids \<open>ks\<close> hold.\<close>

definition refs_of :: "state \<Rightarrow> string list \<Rightarrow> array_ref set" where
  "refs_of s ks = {r. \<exists>k\<in>set ks. map_of (assetsInBundles s) k = Some r}"

text \<open>
  What holds of the two indices in every state the registry reaches: the dictionaries have
  distinct keys, two asset ids never hold the same array, every array in use was allocated,
  and no array of an asset id lists a bundle twice.
\<close>

definition index_inv :: "state \<Rightarrow> bool" where
  "index_inv s \<longleftrightarrow>
     distinct (map fst (assetsInBundles s)) \<and>
     distinct (map snd (assetsInBundles s)) \<and>
     distinct (map fst (urlsInBundles s)) \<and>
     (\<forall>e\<in>set (assetsInBundles s). snd e < next_array s \<and> distinct (arrays s (snd e))) \<and>
     (\<forall>e\<in>set (urlsInBundles s). snd e < next_array s)"

text \<open>Every key of the URL index is a URL without a query string.\<close>

definition urls_normalized :: "state \<Rightarrow> bool" where
  "urls_normalized s \<longleftrightarrow> (\<forall>e\<in>set (urlsInBundles s). CHR ''?'' \<notin> set (fst e))"

text \<open>
  The states of the registry: the constructor makes one, and a state is followed by the
  result of every call that returns (a call that throws is not followed further). Between two
  calls the asset registry may change its asset objects and its table of assets.
\<close>

inductive reachable :: "state \<Rightarrow> bool" where
  created: "reachable (BundleRegistry objs get cbs)"
| assets_changed: "reachable s \<Longrightarrow> reachable (s\<lparr>asset_objects := objs, assets_get := get\<rparr>)"
| added: "reachable s \<Longrightarrow> reachable (onAssetAdded s a)"
| removed: "reachable s \<Longrightarrow> onAssetRemoved s a = Inr s' \<Longrightarrow> reachable s'"
| requested: "reachable s \<Longrightarrow> loadUrl s url cb = Inr s' \<Longrightarrow> reachable s'"
| loaded: "reachable s \<Longrightarrow> onBundleLoaded s b = Inr s' \<Longrightarrow> reachable s'"
| failed: "reachable s \<Longrightarrow> reachable (onBundleError s err b)"

text \<open>What the theorems below assume of a state, in one predicate.\<close>

definition registry_inv :: "state \<Rightarrow> bool" where
  "registry_inv s \<longleftrightarrow>
     index_inv s \<and> urls_normalized s \<and> distinct (map fst (fileRequests s))"

subsection \<open>A small world to run the registry in\<close>

text \<open>
  Bundle \<open>1\<close> (object 0) lists the assets \<open>2\<close> and \<open>3\<close>: a texture (object 1) and a font with
  three pages (object 2). The bundle is being loaded when it is added.
\<close>

definition ex_bundle :: asset where
  "ex_bundle = \<lparr>asset_id = ''1'', asset_type = ''bundle'', data_assets = [''2'', ''3''],
     data_info_maps_length = 0, getFileUrl = Some ''pack.tar.gz'', loaded = False,
     loading = True, resource = None\<rparr>"

definition ex_texture :: asset where
  "ex_texture = \<lparr>asset_id = ''2'', asset_type = ''texture'', data_assets = [],
     data_info_maps_length = 0, getFileUrl = Some ''tex.png?t=5'', loaded = False,
     loading = False, resource = None\<rparr>"

definition ex_font :: asset where
  "ex_font = \<lparr>asset_id = ''3'', asset_type = ''font'', data_assets = [],
     data_info_maps_length = 3, getFileUrl = Some ''font.png'', loaded = False,
     loading = False, resource = None\<rparr>"

definition ex_objects :: "asset_ref \<Rightarrow> asset" where
  "ex_objects = (\<lambda>_. ex_texture)(0 := ex_bundle, 2 := ex_font)"

definition ex_get :: "string \<Rightarrow> asset_ref option" where
  "ex_get = [''1'' \<mapsto> 0, ''2'' \<mapsto> 1, ''3'' \<mapsto> 2]"

definition ex_registry :: state where
  "ex_registry = onAssetAdded (BundleRegistry ex_objects ex_get []) 0"

text \<open>Two requests for the texture wait for the bundle.\<close>

definition ex_pending :: state where
  "ex_pending = ex_registry\<lparr>fileRequests := [(''tex.png'', [7, 8])]\<rparr>"

text \<open>The asset registry has finished loading the bundle: without, and with, a resource.\<close>

definition ex_failed :: state where
  "ex_failed = ex_pending\<lparr>asset_objects := ex_objects(0 := ex_bundle\<lparr>loaded := True, loading := False\<rparr>)\<rparr>"

definition ex_loaded :: state where
  "ex_loaded = ex_pending\<lparr>asset_objects :=
     ex_objects(0 := ex_bundle\<lparr>loaded := True, loading := False, resource := Some 5\<rparr>)\<rparr>"

text \<open>The same world with a texture that has no file.\<close>

definition ex_nofile :: state where
  "ex_nofile =
     onAssetAdded (BundleRegistry (ex_objects(1 := ex_texture\<lparr>getFileUrl := None\<rparr>)) ex_get []) 0"



text \<open>The same world with a font whose file is not a \<^verbatim>\<open>.png\<close>.\<close>

definition ex_nopng :: state where
  "ex_nopng =
     onAssetAdded
       (BundleRegistry (ex_objects(2 := ex_font\<lparr>getFileUrl := Some ''font.webp''\<rparr>)) ex_get []) 0"

section \<open>Properties\<close>

subsection \<open>Association lists\<close>

lemma delete_filter: "AList.delete k xs = filter (\<lambda>e. fst e \<noteq> k) xs"
  by (induction xs) auto

lemma filter_absent_key:
  "map_of xs k = None \<Longrightarrow> filter (\<lambda>e. fst e \<noteq> k) xs = xs"
  by (induction xs) (auto split: if_splits)

lemma map_of_filter_other:
  "(\<And>v. P (k, v)) \<Longrightarrow> map_of (filter P xs) k = map_of xs k"
  by (induction xs) auto

lemma map_of_mem:
  "e \<in> set xs \<Longrightarrow> distinct (map fst xs) \<Longrightarrow> map_of xs (fst e) = Some (snd e)"
  by (cases e) simp



subsection \<open>The example world, evaluated\<close>

lemmas ex_defs = ex_bundle_def ex_texture_def ex_font_def ex_objects_def ex_get_def

lemmas run_defs = onAssetAdded_def BundleRegistry_def indexAssetInBundle_def
  indexAssetFileUrls_def getAssetFileUrls_def normalizeUrl_def setUrl_def on_def off_def
  string_of_nat.simps digit_char_def upt_rec

lemma ex_registry_eq:
  "ex_registry =
     \<lparr> asset_objects = ex_objects, assets_get = ex_get,
       assets_callbacks = [(''add'', OnAssetAdded), (''remove'', OnAssetRemoved),
                           (''load:1'', OnBundleLoaded), (''error:1'', OnBundleError)],
       arrays = (\<lambda>_. [])(0 := [0], 1 := [0]), next_array = 2,
       bundleAssets = [(''1'', 0)], assetsInBundles = [(''2'', 0), (''3'', 1)],
       urlsInBundles = [(''tex.png'', 0), (''font.png'', 1), (''font1.png'', 1), (''font2.png'', 1)],
       fileRequests = [], calls = [] \<rparr>"
  by (simp add: ex_registry_def ex_defs run_defs)

lemma ex_nofile_eq:
  "ex_nofile =
     \<lparr> asset_objects = ex_objects(1 := ex_texture\<lparr>getFileUrl := None\<rparr>), assets_get = ex_get,
       assets_callbacks = [(''add'', OnAssetAdded), (''remove'', OnAssetRemoved),
                           (''load:1'', OnBundleLoaded), (''error:1'', OnBundleError)],
       arrays = (\<lambda>_. [])(0 := [0], 1 := [0]), next_array = 2,
       bundleAssets = [(''1'', 0)], assetsInBundles = [(''2'', 0), (''3'', 1)],
       urlsInBundles = [(''font.png'', 1), (''font1.png'', 1), (''font2.png'', 1)],
       fileRequests = [], calls = [] \<rparr>"
  by (simp add: ex_nofile_def ex_defs run_defs)



subsection \<open>Searching a bundle for a URL\<close>


subsection \<open>The error notification\<close>

lemma failRequests_calls:
  "failRequests err requests s = s\<lparr>calls := calls s @ map (\<lambda>cb. Call cb (Some err) None) requests\<rparr>"
  by (induction requests arbitrary: s) simp_all

lemma failUrl_eq:
  "failUrl err url s =
     s\<lparr>calls := calls s @ (case map_of (fileRequests s) url of None \<Rightarrow> []
                            | Some requests \<Rightarrow> failed_calls s err url requests),
       fileRequests := filter (\<lambda>e. \<not> (fst e = url \<and> findLoadedOrLoadingBundleForUrl s url = None))
                         (fileRequests s)\<rparr>"
  by (auto simp: failUrl_def failRequests_calls failed_calls_def delete_filter
      filter_absent_key split: option.splits)



lemma fold_failUrl_calls:
  "\<exists>cs. calls (fold (failUrl err) ks s) = calls s @ cs \<and> (\<forall>c\<in>set cs. \<exists>cb. c = Call cb (Some err) None)"
proof (induction ks arbitrary: s)
  case Nil
  then show ?case by simp
next
  case (Cons k ks)
  obtain cs where cs: "calls (fold (failUrl err) ks (failUrl err k s)) = calls (failUrl err k s) @ cs"
     "\<forall>c\<in>set cs. \<exists>cb. c = Call cb (Some err) None"
    using Cons.IH by blast
  obtain cs0 where cs0: "calls (failUrl err k s) = calls s @ cs0" "\<forall>c\<in>set cs0. \<exists>cb. c = Call cb (Some err) None"
    by (auto simp: failUrl_eq failed_calls_def split: option.splits)
  show ?case
    by (rule exI [of _ "cs0 @ cs"]) (use cs cs0 in auto)
qed

text \<open>
  Claim C7. A load notification for a bundle whose \<^verbatim>\<open>resource\<close> is absent is handled exactly as
  the error notification with the message \<^verbatim>\<open>Bundle <id> failed to load\<close>, and every
  continuation it calls is called with that error and no handle: none is resolved.
\<close>

theorem onBundleLoaded_without_resource:
  assumes "resource (asset_objects s b) = None"
  shows "onBundleLoaded s b =
           Inr (onBundleError s (''Bundle '' @ asset_id (asset_objects s b) @ '' failed to load'') b)
         \<and> (\<exists>cs. calls (onBundleError s
                           (''Bundle '' @ asset_id (asset_objects s b) @ '' failed to load'') b)
                   = calls s @ cs
                \<and> (\<forall>c\<in>set cs. \<exists>cb.
                      c = Call cb (Some (''Bundle '' @ asset_id (asset_objects s b) @ '' failed to load''))
                            None))"
  using assms fold_failUrl_calls by (simp add: onBundleLoaded_def onBundleError_def)

lemma ex_failed_error:
  "onBundleError ex_failed ''Bundle 1 failed to load'' 0 =
     ex_failed\<lparr>calls := [Call 7 (Some ''Bundle 1 failed to load'') None,
                          Call 8 (Some ''Bundle 1 failed to load'') None],
               fileRequests := []\<rparr>"
  by (simp add: onBundleError_def failUrl_def findLoadedOrLoadingBundleForUrl_def ex_failed_def
      ex_pending_def ex_registry_eq ex_defs)

theorem onBundleLoaded_without_resource_witness:
  "resource (asset_objects ex_failed 0) = None \<and>
   onBundleLoaded ex_failed 0 =
     Inr (ex_failed\<lparr>calls := [Call 7 (Some ''Bundle 1 failed to load'') None,
                               Call 8 (Some ''Bundle 1 failed to load'') None],
                    fileRequests := []\<rparr>)"
proof -
  have r: "resource (asset_objects ex_failed 0) = None"
    and i: "asset_id (asset_objects ex_failed 0) = ''1''"
    by (simp_all add: ex_failed_def ex_defs)
  from onBundleLoaded_without_resource [OF r] show ?thesis
    unfolding i using r by (simp add: ex_failed_error)
qed

subsection \<open>Removing assets\<close>

lemma removeBundleFromAsset_frame:
  "fileRequests (removeBundleFromAsset b k s) = fileRequests s \<and>
   calls (removeBundleFromAsset b k s) = calls s \<and>
   asset_objects (removeBundleFromAsset b k s) = asset_objects s \<and>
   assets_get (removeBundleFromAsset b k s) = assets_get s \<and>
   assets_callbacks (removeBundleFromAsset b k s) = assets_callbacks s \<and>
   bundleAssets (removeBundleFromAsset b k s) = bundleAssets s \<and>
   next_array (removeBundleFromAsset b k s) = next_array s"
  by (simp add: removeBundleFromAsset_def Let_def split: option.splits)

lemma fold_removeBundleFromAsset_frame:
  "fileRequests (fold (removeBundleFromAsset b) ks s) = fileRequests s \<and>
   calls (fold (removeBundleFromAsset b) ks s) = calls s \<and>
   asset_objects (fold (removeBundleFromAsset b) ks s) = asset_objects s \<and>
   assets_get (fold (removeBundleFromAsset b) ks s) = assets_get s \<and>
   assets_callbacks (fold (removeBundleFromAsset b) ks s) = assets_callbacks s \<and>
   bundleAssets (fold (removeBundleFromAsset b) ks s) = bundleAssets s \<and>
   next_array (fold (removeBundleFromAsset b) ks s) = next_array s"
  by (induction ks arbitrary: s) (simp_all add: removeBundleFromAsset_frame)

lemma removeBundleFromAsset_eq:
  assumes "map_of (assetsInBundles s) k = Some r"
  shows "removeBundleFromAsset b k s =
     s\<lparr>arrays := (arrays s)(r := remove1 b (arrays s r)),
       assetsInBundles := filter (\<lambda>e. \<not> (fst e = k \<and> arrays s r = [b])) (assetsInBundles s),
       urlsInBundles := filter (\<lambda>e. \<not> (snd e = r \<and> arrays s r = [b])) (urlsInBundles s)\<rparr>"
proof (cases "b \<in> set (arrays s r)")
  case False
  then have "arrays s r \<noteq> [b]" by auto
  with False assms show ?thesis
    by (simp add: removeBundleFromAsset_def remove1_idem)
next
  case True
  have e: "remove1 b (arrays s r) = [] \<longleftrightarrow> arrays s r = [b]"
    using True by (cases "arrays s r") (auto split: if_splits)
  show ?thesis
    using True assms by (simp add: removeBundleFromAsset_def Let_def e delete_filter)
qed

lemma fold_removeBundleFromAsset:
  assumes "distinct ks" and "set ks \<subseteq> fst ` set (assetsInBundles s)"
    and "distinct (map fst (assetsInBundles s))" and "distinct (map snd (assetsInBundles s))"
  shows "fold (removeBundleFromAsset b) ks s =
     s\<lparr>arrays := (\<lambda>r. if r \<in> refs_of s ks then remove1 b (arrays s r) else arrays s r),
       assetsInBundles :=
         filter (\<lambda>e. \<not> (fst e \<in> set ks \<and> arrays s (snd e) = [b])) (assetsInBundles s),
       urlsInBundles :=
         filter (\<lambda>e. \<not> (snd e \<in> refs_of s ks \<and> arrays s (snd e) = [b])) (urlsInBundles s)\<rparr>"
  using assms
proof (induction ks arbitrary: s)
  case Nil
  then show ?case by (simp add: refs_of_def)
next
  case (Cons k ks)
  from Cons.prems obtain r where r: "map_of (assetsInBundles s) k = Some r"
    by (cases "map_of (assetsInBundles s) k") (auto simp: map_of_eq_None_iff)
  let ?s1 = "removeBundleFromAsset b k s"
  note s1 = removeBundleFromAsset_eq [OF r, of b]
  have aib1: "assetsInBundles ?s1 = filter (\<lambda>e. \<not> (fst e = k \<and> arrays s r = [b])) (assetsInBundles s)"
    and uib1: "urlsInBundles ?s1 = filter (\<lambda>e. \<not> (snd e = r \<and> arrays s r = [b])) (urlsInBundles s)"
    and arr1: "arrays ?s1 = (arrays s)(r := remove1 b (arrays s r))"
    by (simp_all add: s1)
  have m: "map_of (assetsInBundles ?s1) k' = map_of (assetsInBundles s) k'" if "k' \<in> set ks" for k'
    using that Cons.prems(1) unfolding aib1 by (intro map_of_filter_other) auto
  have refs: "refs_of ?s1 ks = refs_of s ks"
    by (auto simp: refs_of_def m)
  have inj: "k1 = k2" if "map_of (assetsInBundles s) k1 = Some q" "map_of (assetsInBundles s) k2 = Some q" for k1 k2 q
  proof -
    from that have "(k1, q) \<in> set (assetsInBundles s)" "(k2, q) \<in> set (assetsInBundles s)"
      by (auto dest: map_of_SomeD)
    with Cons.prems(4) show ?thesis
      by (metis distinct_map inj_on_def snd_conv fst_conv)
  qed
  have notr: "r \<notin> refs_of s ks"
    using Cons.prems(1) r inj by (auto simp: refs_of_def)
  have refs_cons: "refs_of s (k # ks) = insert r (refs_of s ks)"
    using r by (auto simp: refs_of_def)
  have p1: "distinct ks" using Cons.prems(1) by simp
  have p2: "set ks \<subseteq> fst ` set (assetsInBundles ?s1)"
  proof
    fix k' assume k': "k' \<in> set ks"
    with Cons.prems(2) have "map_of (assetsInBundles s) k' \<noteq> None"
      by (auto simp: map_of_eq_None_iff)
    with m [OF k'] have "map_of (assetsInBundles ?s1) k' \<noteq> None" by simp
    then show "k' \<in> fst ` set (assetsInBundles ?s1)"
      unfolding map_of_eq_None_iff by simp
  qed
  have p3: "distinct (map fst (assetsInBundles ?s1))"
    unfolding aib1 using Cons.prems(3) by (simp add: distinct_map_filter)
  have p4: "distinct (map snd (assetsInBundles ?s1))"
    unfolding aib1 using Cons.prems(4) by (simp add: distinct_map_filter)
  have A: "(\<lambda>q. if q \<in> refs_of ?s1 ks then remove1 b (arrays ?s1 q) else arrays ?s1 q)
         = (\<lambda>q. if q \<in> refs_of s (k # ks) then remove1 b (arrays s q) else arrays s q)"
    unfolding refs refs_cons arr1 using notr by auto
  have in_refs: "snd e \<in> refs_of s ks" if "e \<in> set (assetsInBundles s)" "fst e \<in> set ks" for e
  proof -
    from that(1) Cons.prems(3) have "map_of (assetsInBundles s) (fst e) = Some (snd e)"
      by (rule map_of_mem)
    with that(2) show ?thesis by (auto simp: refs_of_def)
  qed
  have ref_k: "snd e = r" if "e \<in> set (assetsInBundles s)" "fst e = k" for e
  proof -
    from that(1) Cons.prems(3) have "map_of (assetsInBundles s) (fst e) = Some (snd e)"
      by (rule map_of_mem)
    with that(2) r show ?thesis by simp
  qed
  have B: "filter (\<lambda>e. \<not> (fst e \<in> set ks \<and> arrays ?s1 (snd e) = [b])) (assetsInBundles ?s1)
         = filter (\<lambda>e. \<not> (fst e \<in> set (k # ks) \<and> arrays s (snd e) = [b])) (assetsInBundles s)"
    unfolding aib1 arr1 filter_filter
    by (rule filter_cong) (use notr in_refs ref_k in \<open>auto\<close>)
  have C: "filter (\<lambda>e. \<not> (snd e \<in> refs_of ?s1 ks \<and> arrays ?s1 (snd e) = [b])) (urlsInBundles ?s1)
         = filter (\<lambda>e. \<not> (snd e \<in> refs_of s (k # ks) \<and> arrays s (snd e) = [b])) (urlsInBundles s)"
    unfolding uib1 arr1 refs refs_cons filter_filter
    by (rule filter_cong) (use notr in \<open>auto\<close>)
  have "fold (removeBundleFromAsset b) (k # ks) s = fold (removeBundleFromAsset b) ks ?s1"
    by simp
  also have "\<dots> = ?s1\<lparr>arrays := (\<lambda>q. if q \<in> refs_of ?s1 ks then remove1 b (arrays ?s1 q) else arrays ?s1 q),
       assetsInBundles :=
         filter (\<lambda>e. \<not> (fst e \<in> set ks \<and> arrays ?s1 (snd e) = [b])) (assetsInBundles ?s1),
       urlsInBundles :=
         filter (\<lambda>e. \<not> (snd e \<in> refs_of ?s1 ks \<and> arrays ?s1 (snd e) = [b])) (urlsInBundles ?s1)\<rparr>"
    by (rule Cons.IH [OF p1 p2 p3 p4])
  also have "\<dots> = s\<lparr>arrays := (\<lambda>q. if q \<in> refs_of s (k # ks) then remove1 b (arrays s q) else arrays s q),
       assetsInBundles :=
         filter (\<lambda>e. \<not> (fst e \<in> set (k # ks) \<and> arrays s (snd e) = [b])) (assetsInBundles s),
       urlsInBundles :=
         filter (\<lambda>e. \<not> (snd e \<in> refs_of s (k # ks) \<and> arrays s (snd e) = [b])) (urlsInBundles s)\<rparr>"
    unfolding A B C by (simp add: s1)
  finally show ?case .
qed

lemma refs_of_all:
  "distinct (map fst (assetsInBundles s)) \<Longrightarrow>
   refs_of s (map fst (assetsInBundles s)) = snd ` set (assetsInBundles s)"
proof (intro set_eqI iffI)
  fix r assume d: "distinct (map fst (assetsInBundles s))"
    and "r \<in> refs_of s (map fst (assetsInBundles s))"
  then obtain k where "map_of (assetsInBundles s) k = Some r" by (auto simp: refs_of_def)
  then have "(k, r) \<in> set (assetsInBundles s)" by (rule map_of_SomeD)
  then show "r \<in> snd ` set (assetsInBundles s)" by force
next
  fix r assume d: "distinct (map fst (assetsInBundles s))"
    and "r \<in> snd ` set (assetsInBundles s)"
  then obtain e where e: "e \<in> set (assetsInBundles s)" "snd e = r" by auto
  from map_of_mem [OF e(1) d] e show "r \<in> refs_of s (map fst (assetsInBundles s))"
    by (auto simp: refs_of_def)
qed

lemma removeBundleFromAsset_commute:
  "removeBundleFromAsset b k (s\<lparr>bundleAssets := x, assets_callbacks := y\<rparr>) =
   (removeBundleFromAsset b k s)\<lparr>bundleAssets := x, assets_callbacks := y\<rparr>"
  by (simp add: removeBundleFromAsset_def Let_def split: option.splits)

lemma fold_removeBundleFromAsset_commute:
  "fold (removeBundleFromAsset b) ks (s\<lparr>bundleAssets := x, assets_callbacks := y\<rparr>) =
   (fold (removeBundleFromAsset b) ks s)\<lparr>bundleAssets := x, assets_callbacks := y\<rparr>"
  by (induction ks arbitrary: s) (simp_all add: removeBundleFromAsset_commute)

lemma onAssetRemoved_bundle:
  assumes "asset_type (asset_objects s b) = ''bundle''"
    and "distinct (map fst (assetsInBundles s))" and "distinct (map snd (assetsInBundles s))"
  shows "onAssetRemoved s b =
     Inr (s\<lparr>bundleAssets := AList.delete (asset_id (asset_objects s b)) (bundleAssets s),
            assets_callbacks :=
              off (''error:'' @ asset_id (asset_objects s b)) OnBundleError
                (off (''load:'' @ asset_id (asset_objects s b)) OnBundleLoaded (assets_callbacks s)),
            arrays := (\<lambda>r. if r \<in> snd ` set (assetsInBundles s) then remove1 b (arrays s r)
                            else arrays s r),
            assetsInBundles := filter (\<lambda>e. arrays s (snd e) \<noteq> [b]) (assetsInBundles s),
            urlsInBundles :=
              filter (\<lambda>e. \<not> (snd e \<in> snd ` set (assetsInBundles s) \<and> arrays s (snd e) = [b]))
                (urlsInBundles s)\<rparr>)"
proof -
  have f: "filter (\<lambda>e. \<not> (fst e \<in> set (map fst (assetsInBundles s)) \<and> arrays s (snd e) = [b]))
             (assetsInBundles s) = filter (\<lambda>e. arrays s (snd e) \<noteq> [b]) (assetsInBundles s)"
    by (rule filter_cong) auto
  have "fold (removeBundleFromAsset b) (map fst (assetsInBundles s)) s =
     s\<lparr>arrays := (\<lambda>r. if r \<in> refs_of s (map fst (assetsInBundles s)) then remove1 b (arrays s r) else arrays s r),
       assetsInBundles :=
         filter (\<lambda>e. \<not> (fst e \<in> set (map fst (assetsInBundles s)) \<and> arrays s (snd e) = [b])) (assetsInBundles s),
       urlsInBundles :=
         filter (\<lambda>e. \<not> (snd e \<in> refs_of s (map fst (assetsInBundles s)) \<and> arrays s (snd e) = [b])) (urlsInBundles s)\<rparr>"
    by (rule fold_removeBundleFromAsset) (use assms in simp_all)
  then have F: "fold (removeBundleFromAsset b) (map fst (assetsInBundles s)) s =
     s\<lparr>arrays := (\<lambda>r. if r \<in> snd ` set (assetsInBundles s) then remove1 b (arrays s r) else arrays s r),
       assetsInBundles := filter (\<lambda>e. arrays s (snd e) \<noteq> [b]) (assetsInBundles s),
       urlsInBundles :=
         filter (\<lambda>e. \<not> (snd e \<in> snd ` set (assetsInBundles s) \<and> arrays s (snd e) = [b])) (urlsInBundles s)\<rparr>"
    unfolding f refs_of_all [OF assms(2)] .
  show ?thesis
    using assms(1)
    by (simp add: onAssetRemoved_def Let_def fold_removeBundleFromAsset_commute F)
qed



text \<open>
  Claim C9. Handling the remove notification of a bundle leaves the pending requests as they
  are: the queue is the same afterwards, and no continuation is called. This holds whatever
  the bundle covered, so also when it was the only bundle covering a queued URL.
\<close>

theorem bundle_removal_keeps_requests:
  assumes "asset_type (asset_objects s b) = ''bundle''"
  shows "\<exists>s'. onAssetRemoved s b = Inr s' \<and> fileRequests s' = fileRequests s \<and> calls s' = calls s"
  using assms by (simp add: onAssetRemoved_def Let_def fold_removeBundleFromAsset_frame)

theorem bundle_removal_keeps_requests_witness:
  "asset_type (asset_objects ex_pending 0) = ''bundle'' \<and>
   findLoadedOrLoadingBundleForUrl ex_pending ''tex.png'' = Some 0 \<and>
   (\<exists>s'. onAssetRemoved ex_pending 0 = Inr s' \<and> fileRequests s' = [(''tex.png'', [7, 8])] \<and>
         calls s' = [])"
proof -
  have t: "asset_type (asset_objects ex_pending 0) = ''bundle''"
    by (simp add: ex_pending_def ex_registry_eq ex_defs)
  have f: "findLoadedOrLoadingBundleForUrl ex_pending ''tex.png'' = Some 0"
    by (simp add: findLoadedOrLoadingBundleForUrl_def ex_pending_def ex_registry_eq ex_defs)
  have q: "fileRequests ex_pending = [(''tex.png'', [7, 8])]" "calls ex_pending = []"
    by (simp_all add: ex_pending_def ex_registry_eq)
  from bundle_removal_keeps_requests [OF t] show ?thesis
    unfolding q using t f by simp
qed

text \<open>
  Claim C10. Removing an asset that is not a bundle, whose id is in the index of asset ids and
  whose \<^verbatim>\<open>getFileUrl()\<close> returns no URL, faults: \<^verbatim>\<open>_getAssetFileUrls\<close> returns \<^verbatim>\<open>null\<close>,
  and \<^verbatim>\<open>_onAssetRemoved\<close> reads \<^verbatim>\<open>.length\<close> of it.
\<close>

theorem removal_without_file_url_faults:
  assumes "asset_type (asset_objects s a) \<noteq> ''bundle''"
    and "map_of (assetsInBundles s) (asset_id (asset_objects s a)) \<noteq> None"
    and "getFileUrl (asset_objects s a) = None"
  shows "getAssetFileUrls (asset_objects s a) = None \<and> onAssetRemoved s a = Inl TypeError"
  using assms by (simp add: onAssetRemoved_def getAssetFileUrls_def Let_def)

theorem removal_without_file_url_faults_witness:
  "asset_type (asset_objects ex_nofile 1) \<noteq> ''bundle'' \<and>
   map_of (assetsInBundles ex_nofile) (asset_id (asset_objects ex_nofile 1)) \<noteq> None \<and>
   getFileUrl (asset_objects ex_nofile 1) = None \<and>
   onAssetRemoved ex_nofile 1 = Inl TypeError"
proof -
  have h: "asset_type (asset_objects ex_nofile 1) \<noteq> ''bundle''"
    "map_of (assetsInBundles ex_nofile) (asset_id (asset_objects ex_nofile 1)) \<noteq> None"
    "getFileUrl (asset_objects ex_nofile 1) = None"
    by (simp_all add: ex_nofile_eq ex_defs)
  from removal_without_file_url_faults [OF h] h show ?thesis by simp
qed

subsection \<open>Tearing the registry down\<close>

lemma fold_on_keeps:
  "e \<in> set cbs \<or> (\<exists>i\<in>set ks. e = (''load:'' @ i, OnBundleLoaded) \<or> e = (''error:'' @ i, OnBundleError)) \<Longrightarrow>
   e \<in> set (fold (\<lambda>ident cbs. on (''error:'' @ ident) OnBundleError
                                 (on (''load:'' @ ident) OnBundleLoaded cbs)) ks cbs)"
  by (induction ks arbitrary: cbs) (auto simp: on_def)

lemma destroy_subscribed:
  assumes "(ident, b) \<in> set (bundleAssets s)"
  shows "subscribed (destroy s) (''load:'' @ ident) OnBundleLoaded"
    and "subscribed (destroy s) (''error:'' @ ident) OnBundleError"
  using assms unfolding subscribed_def destroy_def
  by (force intro!: fold_on_keeps)+

text \<open>
  Claim C4 says that after \<^verbatim>\<open>destroy()\<close> the registry is subscribed to nothing. The loop over
  the bundles calls \<^verbatim>\<open>on\<close> where \<^verbatim>\<open>_onAssetRemoved\<close> calls \<^verbatim>\<open>off\<close>: in the example world the
  two global subscriptions are gone afterwards, and the registry is subscribed twice to the
  load and to the error notification of bundle \<open>1\<close>.
\<close>

theorem destroy_subscribes_again:
  "assets_callbacks ex_registry =
     [(''add'', OnAssetAdded), (''remove'', OnAssetRemoved),
      (''load:1'', OnBundleLoaded), (''error:1'', OnBundleError)] \<and>
   destroy ex_registry =
     [(''load:1'', OnBundleLoaded), (''error:1'', OnBundleError),
      (''load:1'', OnBundleLoaded), (''error:1'', OnBundleError)] \<and>
   subscribed (destroy ex_registry) ''load:1'' OnBundleLoaded \<and>
   subscribed (destroy ex_registry) ''error:1'' OnBundleError"
  by (simp add: ex_registry_eq destroy_def on_def off_def subscribed_def)

subsection \<open>Decoding and searching\<close>

lemma decode_plain:
  "CHR ''%'' \<notin> set url \<Longrightarrow> decode [] 0 url = Some url"
  by (induction url) auto

lemma decodeURIComponent_plain:
  "CHR ''%'' \<notin> set url \<Longrightarrow> decodeURIComponent url = Some url"
  by (simp add: decodeURIComponent_def decode_plain)




subsection \<open>Requesting a URL\<close>





subsection \<open>The load notification\<close>






subsection \<open>Request, then notification\<close>









subsection \<open>Page names of a font\<close>

lemma digit_char_inj: "a < 10 \<Longrightarrow> b < 10 \<Longrightarrow> digit_char a = digit_char b \<Longrightarrow> a = b"
proof -
  assume a: "a < 10" and b: "b < 10" and e: "digit_char a = digit_char b"
  have d: "distinct ''0123456789''" by simp
  have l: "length ''0123456789'' = 10" by simp
  from e have "''0123456789'' ! a = ''0123456789'' ! b" by (simp add: digit_char_def)
  with d a b l show "a = b" by (simp add: nth_eq_iff_index_eq)
qed

lemma string_of_nat_nonempty: "string_of_nat n \<noteq> []"
  by (subst string_of_nat.simps) simp

lemma string_of_nat_inj: "string_of_nat n = string_of_nat m \<Longrightarrow> n = m"
proof (induction n arbitrary: m rule: string_of_nat.induct)
  case (1 n)
  show ?case
  proof (cases "n < 10")
    case True
    then have sn: "string_of_nat n = [digit_char n]" by (subst string_of_nat.simps) simp
    show ?thesis
    proof (cases "m < 10")
      case m: True
      then have "string_of_nat m = [digit_char m]" by (subst string_of_nat.simps) simp
      with sn "1.prems" True m show ?thesis by (auto dest: digit_char_inj)
    next
      case False
      then have "string_of_nat m = string_of_nat (m div 10) @ [digit_char (m mod 10)]"
        by (subst string_of_nat.simps) simp
      with sn "1.prems" string_of_nat_nonempty [of "m div 10"] show ?thesis by simp
    qed
  next
    case False
    then have sn: "string_of_nat n = string_of_nat (n div 10) @ [digit_char (n mod 10)]"
      by (subst string_of_nat.simps) simp
    show ?thesis
    proof (cases "m < 10")
      case True
      then have "string_of_nat m = [digit_char m]" by (subst string_of_nat.simps) simp
      with sn "1.prems" string_of_nat_nonempty [of "n div 10"] show ?thesis by simp
    next
      case m: False
      then have sm: "string_of_nat m = string_of_nat (m div 10) @ [digit_char (m mod 10)]"
        by (subst string_of_nat.simps) simp
      from sn sm "1.prems" have e1: "string_of_nat (n div 10) = string_of_nat (m div 10)"
        and e2: "digit_char (n mod 10) = digit_char (m mod 10)" by simp_all
      from "1.IH" [OF False e1] have "n div 10 = m div 10" .
      moreover from e2 have "n mod 10 = m mod 10" by (intro digit_char_inj) simp_all
      ultimately show ?thesis by (metis div_mult_mod_eq)
    qed
  qed
qed

lemma prefix_png_overlap:
  "prefix ''.png'' (xs @ ''.png'') \<Longrightarrow> xs = [] \<or> prefix ''.png'' xs"
proof -
  assume p: "prefix ''.png'' (xs @ ''.png'')"
  show ?thesis
  proof (cases xs)
    case Nil
    then show ?thesis by simp
  next
    case (Cons a as)
    note c1 = this
    show ?thesis
    proof (cases as)
      case Nil
      with c1 p show ?thesis by simp
    next
      case (Cons b bs)
      note c2 = this
      show ?thesis
      proof (cases bs)
        case Nil
        with c1 c2 p show ?thesis by simp
      next
        case (Cons c cs)
        note c3 = this
        show ?thesis
        proof (cases cs)
          case Nil
          with c1 c2 c3 p show ?thesis by simp
        next
          case (Cons d ds)
          with c1 c2 c3 p show ?thesis by simp
        qed
      qed
    qed
  qed
qed

lemma replace_png_suffix:
  "\<not> sublist ''.png'' stem \<Longrightarrow> replace ''.png'' rep (stem @ ''.png'') = stem @ rep"
proof (induction stem)
  case Nil
  then show ?case by simp
next
  case (Cons c cs)
  have np: "\<not> prefix ''.png'' ((c # cs) @ ''.png'')"
  proof
    assume "prefix ''.png'' ((c # cs) @ ''.png'')"
    then have "prefix ''.png'' (c # cs)" using prefix_png_overlap by blast
    then have "sublist ''.png'' (c # cs)" by (rule prefix_imp_sublist)
    with Cons.prems show False by simp
  qed
  from Cons.prems have "\<not> sublist ''.png'' cs" by (simp add: sublist_Cons_right)
  then have IH: "replace ''.png'' rep (cs @ ''.png'') = cs @ rep" by (rule Cons.IH)
  have "replace ''.png'' rep ((c # cs) @ ''.png'') = c # replace ''.png'' rep (cs @ ''.png'')"
    using np by (simp only: append_Cons replace.simps if_False)
  then show ?case by (simp only: IH append_Cons)
qed

lemma replace_absent:
  "\<not> sublist pat s \<Longrightarrow> replace pat rep s = s"
proof (induction s)
  case Nil
  then show ?case by auto
next
  case (Cons c cs)
  then have np: "\<not> prefix pat (c # cs)" using prefix_imp_sublist by blast
  from Cons.prems have "\<not> sublist pat cs" by (simp add: sublist_Cons_right)
  then have IH: "replace pat rep cs = cs" by (rule Cons.IH)
  show ?case using np by (simp only: replace.simps if_False IH)
qed

subsection \<open>Indexing the URLs of an asset\<close>

lemma setUrl_eq:
  "setUrl url v s =
     s\<lparr>urlsInBundles := (case v of Some r \<Rightarrow> AList.update url r (urlsInBundles s)
                                  | None \<Rightarrow> AList.delete url (urlsInBundles s))\<rparr>"
  by (simp add: setUrl_def split: option.splits)

lemma fold_setUrl:
  "fold (\<lambda>url s'. setUrl url (map_of (assetsInBundles s') (asset_id (asset_objects s' a))) s') urls s =
     s\<lparr>urlsInBundles :=
         fold (\<lambda>url l. case map_of (assetsInBundles s) (asset_id (asset_objects s a)) of
                          Some r \<Rightarrow> AList.update url r l | None \<Rightarrow> AList.delete url l)
              urls (urlsInBundles s)\<rparr>"
proof (induction urls arbitrary: s)
  case Nil
  show ?case by simp
next
  case (Cons u us)
  show ?case
    by (simp add: Cons.IH) (simp add: setUrl_eq)
qed

lemma indexAssetFileUrls_eq:
  "indexAssetFileUrls s a =
     (case getAssetFileUrls (asset_objects s a) of
        None \<Rightarrow> s
      | Some urls \<Rightarrow>
          s\<lparr>urlsInBundles :=
              fold (\<lambda>url l. case map_of (assetsInBundles s) (asset_id (asset_objects s a)) of
                               Some r \<Rightarrow> AList.update url r l | None \<Rightarrow> AList.delete url l)
                   urls (urlsInBundles s)\<rparr>)"
  by (simp add: indexAssetFileUrls_def fold_setUrl split: option.splits)

lemma map_of_fold_update:
  "map_of (fold (\<lambda>url l. AList.update url r l) urls l) k =
     (if k \<in> set urls then Some r else map_of l k)"
  by (induction urls arbitrary: l) (auto simp: update_conv')

lemma map_of_fold_delete:
  "map_of (fold (\<lambda>url l. AList.delete url l) urls l) k =
     (if k \<in> set urls then None else map_of l k)"
  by (induction urls arbitrary: l) (auto simp: delete_conv')

lemma distinct_fold_update:
  "distinct (map fst l) \<Longrightarrow> distinct (map fst (fold (\<lambda>url l. AList.update url r l) urls l))"
  by (induction urls arbitrary: l) (simp_all add: distinct_update)

lemma distinct_fold_delete:
  "distinct (map fst l) \<Longrightarrow> distinct (map fst (fold (\<lambda>url l. AList.delete url l) urls l))"
  by (induction urls arbitrary: l) (simp_all add: distinct_delete)

lemma keys_fold_update:
  "fst ` set (fold (\<lambda>url l. AList.update url r l) urls l) = fst ` set l \<union> set urls"
  by (induction urls arbitrary: l) (auto simp: dom_update)

lemma keys_fold_delete:
  "fst ` set (fold (\<lambda>url l. AList.delete url l) urls l) \<subseteq> fst ` set l"
proof (induction urls arbitrary: l)
  case Nil
  show ?case by simp
next
  case (Cons u us)
  have "fst ` set (fold (\<lambda>url l. AList.delete url l) us (AList.delete u l)) \<subseteq> fst ` set (AList.delete u l)"
    by (rule Cons.IH)
  also have "\<dots> \<subseteq> fst ` set l" by (rule dom_delete_subset)
  finally show ?case by simp
qed

lemma set_update_subset: "set (AList.update k v l) \<subseteq> insert (k, v) (set l)"
  by (induction l) auto

lemma vals_fold_update:
  "snd ` set (fold (\<lambda>url l. AList.update url r l) urls l) \<subseteq> insert r (snd ` set l)"
proof (induction urls arbitrary: l)
  case Nil
  show ?case by auto
next
  case (Cons u us)
  have "snd ` set (fold (\<lambda>url l. AList.update url r l) us (AList.update u r l))
        \<subseteq> insert r (snd ` set (AList.update u r l))"
    by (rule Cons.IH)
  also have "\<dots> \<subseteq> insert r (snd ` set l)"
    using set_update_subset [of u r l] by auto
  finally show ?case by simp
qed

lemma vals_fold_delete:
  "set (fold (\<lambda>url l. AList.delete url l) urls l) \<subseteq> set l"
proof (induction urls arbitrary: l)
  case Nil
  show ?case by simp
next
  case (Cons u us)
  have "set (fold (\<lambda>url l. AList.delete url l) us (AList.delete u l)) \<subseteq> set (AList.delete u l)"
    by (rule Cons.IH)
  also have "\<dots> \<subseteq> set l" by (auto simp: delete_filter)
  finally show ?case by simp
qed

lemma getAssetFileUrls_font:
  assumes "asset_type a = ''font''" and "getFileUrl a = Some f"
    and "normalizeUrl f = stem @ ''.png''" and "\<not> sublist ''.png'' stem"
    and "0 < data_info_maps_length a"
  shows "getAssetFileUrls a =
     Some (map (\<lambda>i. if i = 0 then stem @ ''.png'' else stem @ string_of_nat i @ ''.png'')
               [0 ..< data_info_maps_length a])"
proof -
  from assms(3) have "f \<noteq> []" by (auto simp: normalizeUrl_def)
  moreover have "[0 ..< data_info_maps_length a] = 0 # [1 ..< data_info_maps_length a]"
    using assms(5) by (simp add: upt_rec)
  moreover have "map (\<lambda>i. replace ''.png'' (string_of_nat i @ ''.png'') (stem @ ''.png''))
                   [1 ..< data_info_maps_length a]
               = map (\<lambda>i. if i = 0 then stem @ ''.png'' else stem @ string_of_nat i @ ''.png'')
                   [1 ..< data_info_maps_length a]"
    by (rule map_cong) (simp_all add: replace_png_suffix [OF assms(4)])
  ultimately show ?thesis
    using assms(1,2,3) by (simp add: getAssetFileUrls_def Let_def)
qed

lemma font_pages_distinct:
  "distinct (map (\<lambda>i. if i = 0 then stem @ ''.png'' else stem @ string_of_nat i @ ''.png'') [0 ..< n])"
proof -
  have "inj_on (\<lambda>i. if i = 0 then stem @ ''.png'' else stem @ string_of_nat i @ ''.png'') {0 ..< n}"
    by (rule inj_onI) (auto split: if_splits simp: string_of_nat_nonempty dest: string_of_nat_inj)
  then show ?thesis by (simp add: distinct_map)
qed

text \<open>
  Claim C8, as stated, fails for a font whose URL does not contain \<^verbatim>\<open>.png\<close>: \<^verbatim>\<open>replace\<close> finds
  nothing to replace, the three pages get the same URL, and one URL entry is installed.
\<close>

theorem font_pages_without_png:
  "asset_type (asset_objects ex_nopng 2) = ''font'' \<and>
   data_info_maps_length (asset_objects ex_nopng 2) = 3 \<and>
   getAssetFileUrls (asset_objects ex_nopng 2) = Some [''font.webp'', ''font.webp'', ''font.webp''] \<and>
   urlsInBundles ex_nopng = [(''tex.png'', 0), (''font.webp'', 1)]"
  by (simp add: ex_nopng_def ex_defs run_defs Let_def)

text \<open>
  Claim C8, amended. For a font asset with \<open>N \<ge> 1\<close> pages whose normalized URL is
  \<open>stem.png\<close>, with no \<^verbatim>\<open>.png\<close> inside \<open>stem\<close>, the URLs are \<open>stem.png\<close> for page 0 and
  \<open>stem<i>.png\<close> for the pages \<open>1 \<le> i < N\<close>; they are \<open>N\<close> different URLs, and indexing the
  asset makes exactly these URLs hold the array that the asset id holds (every other URL
  keeps what it held, and the index of asset ids and the arrays stay as they are).
\<close>

theorem font_pages_indexed:
  assumes "asset_type (asset_objects s x) = ''font''"
    and "getFileUrl (asset_objects s x) = Some f"
    and "normalizeUrl f = stem @ ''.png''" and "\<not> sublist ''.png'' stem"
    and "0 < data_info_maps_length (asset_objects s x)"
    and "map_of (assetsInBundles s) (asset_id (asset_objects s x)) = Some r"
  shows "getAssetFileUrls (asset_objects s x) =
           Some (map (\<lambda>i. if i = 0 then stem @ ''.png'' else stem @ string_of_nat i @ ''.png'')
                     [0 ..< data_info_maps_length (asset_objects s x)]) \<and>
         distinct (map (\<lambda>i. if i = 0 then stem @ ''.png'' else stem @ string_of_nat i @ ''.png'')
                     [0 ..< data_info_maps_length (asset_objects s x)]) \<and>
         length (map (\<lambda>i. if i = 0 then stem @ ''.png'' else stem @ string_of_nat i @ ''.png'')
                     [0 ..< data_info_maps_length (asset_objects s x)])
           = data_info_maps_length (asset_objects s x) \<and>
         (\<forall>url. map_of (urlsInBundles (indexAssetFileUrls s x)) url =
            (if \<exists>i < data_info_maps_length (asset_objects s x).
                  url = (if i = 0 then stem @ ''.png'' else stem @ string_of_nat i @ ''.png'')
             then map_of (assetsInBundles s) (asset_id (asset_objects s x))
             else map_of (urlsInBundles s) url)) \<and>
         assetsInBundles (indexAssetFileUrls s x) = assetsInBundles s \<and>
         arrays (indexAssetFileUrls s x) = arrays s"
proof -
  let ?pages = "map (\<lambda>i. if i = 0 then stem @ ''.png'' else stem @ string_of_nat i @ ''.png'')
                     [0 ..< data_info_maps_length (asset_objects s x)]"
  have g: "getAssetFileUrls (asset_objects s x) = Some ?pages"
    using assms(1-5) by (rule getAssetFileUrls_font)
  have i: "indexAssetFileUrls s x =
             s\<lparr>urlsInBundles := fold (\<lambda>url l. AList.update url r l) ?pages (urlsInBundles s)\<rparr>"
    by (simp add: indexAssetFileUrls_eq g assms(6))
  have m: "url \<in> set ?pages \<longleftrightarrow>
             (\<exists>i < data_info_maps_length (asset_objects s x).
                  url = (if i = 0 then stem @ ''.png'' else stem @ string_of_nat i @ ''.png''))" for url
    by (simp only: set_map set_upt image_iff Bex_def atLeastLessThan_iff le0 simp_thms)
  have u: "map_of (urlsInBundles (indexAssetFileUrls s x)) url =
            (if \<exists>i < data_info_maps_length (asset_objects s x).
                  url = (if i = 0 then stem @ ''.png'' else stem @ string_of_nat i @ ''.png'')
             then map_of (assetsInBundles s) (asset_id (asset_objects s x))
             else map_of (urlsInBundles s) url)" for url
    unfolding i m [symmetric] by (simp add: map_of_fold_update assms(6))
  show ?thesis
    using g font_pages_distinct u by (simp add: i)
qed

lemma ex_registry_font:
  "asset_type (asset_objects ex_registry 2) = ''font''"
  "getFileUrl (asset_objects ex_registry 2) = Some ''font.png''"
  "normalizeUrl ''font.png'' = ''font'' @ ''.png''"
  "\<not> sublist ''.png'' ''font''"
  "0 < data_info_maps_length (asset_objects ex_registry 2)"
  "map_of (assetsInBundles ex_registry) (asset_id (asset_objects ex_registry 2)) = Some 1"
  by (simp_all add: ex_registry_eq ex_defs normalizeUrl_def sublist_Cons_right)

theorem font_pages_indexed_witness:
  "getAssetFileUrls (asset_objects ex_registry 2) = Some [''font.png'', ''font1.png'', ''font2.png''] \<and>
   map_of (urlsInBundles (indexAssetFileUrls ex_registry 2)) ''font.png'' = Some 1 \<and>
   map_of (urlsInBundles (indexAssetFileUrls ex_registry 2)) ''font1.png'' = Some 1 \<and>
   map_of (urlsInBundles (indexAssetFileUrls ex_registry 2)) ''font2.png'' = Some 1 \<and>
   map_of (assetsInBundles (indexAssetFileUrls ex_registry 2)) ''3'' = Some 1"
proof -
  note inst = font_pages_indexed [OF ex_registry_font]
  have n: "data_info_maps_length (asset_objects ex_registry 2) = 3"
    "asset_id (asset_objects ex_registry 2) = ''3''"
    "map_of (assetsInBundles ex_registry) ''3'' = Some 1"
    by (simp_all add: ex_registry_eq ex_defs)
  have p: "map (\<lambda>i. if i = 0 then ''font'' @ ''.png'' else ''font'' @ string_of_nat i @ ''.png'') [0 ..< 3]
           = [''font.png'', ''font1.png'', ''font2.png'']"
    by (simp add: upt_rec string_of_nat.simps digit_char_def)
  from inst have 1: "getAssetFileUrls (asset_objects ex_registry 2) =
      Some [''font.png'', ''font1.png'', ''font2.png'']"
    unfolding n p by simp
  from inst have u: "map_of (urlsInBundles (indexAssetFileUrls ex_registry 2)) url =
            (if \<exists>i < 3. url = (if i = 0 then ''font'' @ ''.png'' else ''font'' @ string_of_nat i @ ''.png'')
             then Some 1 else map_of (urlsInBundles ex_registry) url)" for url
    unfolding n by simp
  have 2: "map_of (urlsInBundles (indexAssetFileUrls ex_registry 2)) ''font.png'' = Some 1"
    unfolding u by (simp add: exI [of _ 0])
  have 3: "map_of (urlsInBundles (indexAssetFileUrls ex_registry 2)) ''font1.png'' = Some 1"
    unfolding u by (simp add: ex_registry_eq)
  have 4: "map_of (urlsInBundles (indexAssetFileUrls ex_registry 2)) ''font2.png'' = Some 1"
    unfolding u by (simp add: ex_registry_eq)
  from inst have 5: "map_of (assetsInBundles (indexAssetFileUrls ex_registry 2)) ''3'' = Some 1"
    by (simp add: n)
  from 1 2 3 4 5 show ?thesis by simp
qed

subsection \<open>Query strings\<close>

lemma digit_char_set: "d < 10 \<Longrightarrow> digit_char d \<in> set ''0123456789''"
  unfolding digit_char_def by (rule nth_mem) simp

lemma string_of_nat_digits: "set (string_of_nat n) \<subseteq> set ''0123456789''"
proof (induction n rule: string_of_nat.induct)
  case (1 n)
  show ?case
  proof (cases "n < 10")
    case True
    then have "string_of_nat n = [digit_char n]" by (subst string_of_nat.simps) simp
    with True digit_char_set [of n] show ?thesis by simp
  next
    case False
    then have "string_of_nat n = string_of_nat (n div 10) @ [digit_char (n mod 10)]"
      by (subst string_of_nat.simps) simp
    moreover have "digit_char (n mod 10) \<in> set ''0123456789''" by (rule digit_char_set) simp
    ultimately show ?thesis using "1.IH" [OF False] by simp
  qed
qed

lemma replace_chars: "set (replace pat rep s) \<subseteq> set s \<union> set rep"
proof (induction s)
  case Nil
  show ?case by auto
next
  case (Cons c cs)
  have "set (drop (length pat) (c # cs)) \<subseteq> set (c # cs)" by (rule set_drop_subset)
  with Cons.IH show ?case by auto
qed

lemma normalizeUrl_no_query: "CHR ''?'' \<notin> set (normalizeUrl u)"
  unfolding normalizeUrl_def by (induction u) auto

lemma getAssetFileUrls_no_query:
  assumes "getAssetFileUrls a = Some urls" and "u \<in> set urls"
  shows "CHR ''?'' \<notin> set u"
proof -
  from assms(1) obtain f where f: "getFileUrl a = Some f" "f \<noteq> []"
    by (auto simp: getAssetFileUrls_def split: option.splits if_splits)
  have page: "CHR ''?'' \<notin> set (replace ''.png'' (string_of_nat i @ ''.png'') (normalizeUrl f))" for i
  proof
    assume "CHR ''?'' \<in> set (replace ''.png'' (string_of_nat i @ ''.png'') (normalizeUrl f))"
    with replace_chars have "CHR ''?'' \<in> set (normalizeUrl f) \<union> set (string_of_nat i @ ''.png'')"
      by blast
    with normalizeUrl_no_query [of f] string_of_nat_digits [of i] show False by auto
  qed
  from assms f have "u = normalizeUrl f \<or>
     (\<exists>i. u = replace ''.png'' (string_of_nat i @ ''.png'') (normalizeUrl f))"
    by (auto simp: getAssetFileUrls_def Let_def split: if_splits)
  with page normalizeUrl_no_query [of f] show ?thesis by auto
qed

lemma indexAssetFileUrls_keys:
  "fst ` set (urlsInBundles (indexAssetFileUrls s a)) \<subseteq>
     fst ` set (urlsInBundles s) \<union>
     (case getAssetFileUrls (asset_objects s a) of None \<Rightarrow> {} | Some urls \<Rightarrow> set urls)"
proof (cases "getAssetFileUrls (asset_objects s a)")
  case None
  then show ?thesis by (simp add: indexAssetFileUrls_eq)
next
  case (Some urls)
  show ?thesis
  proof (cases "map_of (assetsInBundles s) (asset_id (asset_objects s a))")
    case None
    with Some keys_fold_delete [of urls "urlsInBundles s"] show ?thesis
      by (auto simp: indexAssetFileUrls_eq)
  next
    case (Some r)
    with \<open>getAssetFileUrls (asset_objects s a) = Some urls\<close>
      keys_fold_update [of r urls "urlsInBundles s"] show ?thesis
      by (simp add: indexAssetFileUrls_eq)
  qed
qed

lemma indexAssetFileUrls_normalized:
  assumes "urls_normalized s"
  shows "urls_normalized (indexAssetFileUrls s a)"
  unfolding urls_normalized_def
proof
  fix e assume "e \<in> set (urlsInBundles (indexAssetFileUrls s a))"
  then have "fst e \<in> fst ` set (urlsInBundles (indexAssetFileUrls s a))" by simp
  with indexAssetFileUrls_keys [of s a]
  have "fst e \<in> fst ` set (urlsInBundles s) \<or>
     (\<exists>urls. getAssetFileUrls (asset_objects s a) = Some urls \<and> fst e \<in> set urls)"
    by (auto split: option.splits)
  then show "CHR ''?'' \<notin> set (fst e)"
  proof
    assume "fst e \<in> fst ` set (urlsInBundles s)"
    with assms show ?thesis by (auto simp: urls_normalized_def)
  next
    assume "\<exists>urls. getAssetFileUrls (asset_objects s a) = Some urls \<and> fst e \<in> set urls"
    then show ?thesis using getAssetFileUrls_no_query by blast
  qed
qed

lemma indexAssetFileUrls_frame:
  "asset_objects (indexAssetFileUrls s a) = asset_objects s"
  "assets_get (indexAssetFileUrls s a) = assets_get s"
  "assets_callbacks (indexAssetFileUrls s a) = assets_callbacks s"
  "arrays (indexAssetFileUrls s a) = arrays s"
  "next_array (indexAssetFileUrls s a) = next_array s"
  "bundleAssets (indexAssetFileUrls s a) = bundleAssets s"
  "assetsInBundles (indexAssetFileUrls s a) = assetsInBundles s"
  "fileRequests (indexAssetFileUrls s a) = fileRequests s"
  "calls (indexAssetFileUrls s a) = calls s"
  by (simp_all add: indexAssetFileUrls_eq split: option.splits)

lemma indexAssetInBundle_normalized:
  assumes "urls_normalized s"
  shows "urls_normalized (indexAssetInBundle s k b)"
proof -
  have 1: "urls_normalized (s\<lparr>arrays := x, next_array := y, assetsInBundles := z\<rparr>)" for x y z
    using assms by (simp add: urls_normalized_def)
  have 2: "urls_normalized (s\<lparr>arrays := x\<rparr>)" for x
    using assms by (simp add: urls_normalized_def)
  show ?thesis
    unfolding indexAssetInBundle_def Let_def
    by (auto split: option.splits intro!: indexAssetFileUrls_normalized 1 2 assms)
qed

lemma fold_indexAssetInBundle_normalized:
  "urls_normalized s \<Longrightarrow>
   urls_normalized (fold (\<lambda>assetId s'. indexAssetInBundle s' assetId b) ks s)"
  by (induction ks arbitrary: s) (simp_all add: indexAssetInBundle_normalized)

lemma onAssetAdded_normalized:
  assumes "urls_normalized s"
  shows "urls_normalized (onAssetAdded s a)"
proof -
  have "urls_normalized (s\<lparr>bundleAssets := x, assets_callbacks := y\<rparr>)" for x y
    using assms by (simp add: urls_normalized_def)
  then show ?thesis
    unfolding onAssetAdded_def Let_def
    by (auto intro!: fold_indexAssetInBundle_normalized indexAssetFileUrls_normalized assms)
qed

lemma BundleRegistry_normalized: "urls_normalized (BundleRegistry objs get cbs)"
  by (simp add: urls_normalized_def BundleRegistry_def)

lemma normalizeUrl_id: "CHR ''?'' \<notin> set u \<Longrightarrow> normalizeUrl u = u"
  unfolding normalizeUrl_def by (induction u) auto

lemma lookup_query_url:
  assumes "urls_normalized s" and "CHR ''?'' \<in> set u"
  shows "map_of (urlsInBundles s) u = None"
proof (rule ccontr)
  assume "map_of (urlsInBundles s) u \<noteq> None"
  then obtain r where "map_of (urlsInBundles s) u = Some r" by auto
  then have "(u, r) \<in> set (urlsInBundles s)" by (rule map_of_SomeD)
  with assms show False by (auto simp: urls_normalized_def)
qed

subsection \<open>The indices stay well-formed when assets are added\<close>

lemma update_absent: "map_of l k = None \<Longrightarrow> AList.update k v l = l @ [(k, v)]"
  by (induction l) (auto split: if_splits)

lemma index_inv_urls:
  assumes "index_inv s" and "distinct (map fst l)" and "\<forall>e\<in>set l. snd e < next_array s"
  shows "index_inv (s\<lparr>urlsInBundles := l\<rparr>)"
  using assms by (simp add: index_inv_def)

lemma indexAssetFileUrls_inv:
  assumes "index_inv s"
  shows "index_inv (indexAssetFileUrls s a)"
proof (cases "getAssetFileUrls (asset_objects s a)")
  case None
  with assms show ?thesis by (simp add: indexAssetFileUrls_eq)
next
  case (Some urls)
  note urls = this
  from assms have d: "distinct (map fst (urlsInBundles s))"
    and b: "\<forall>e\<in>set (urlsInBundles s). snd e < next_array s"
    by (simp_all add: index_inv_def)
  show ?thesis
  proof (cases "map_of (assetsInBundles s) (asset_id (asset_objects s a))")
    case None
    have "\<forall>e\<in>set (fold (\<lambda>url l. AList.delete url l) urls (urlsInBundles s)). snd e < next_array s"
      using b vals_fold_delete [of urls "urlsInBundles s"] by blast
    then have "index_inv (s\<lparr>urlsInBundles := fold (\<lambda>url l. AList.delete url l) urls (urlsInBundles s)\<rparr>)"
      using assms d by (intro index_inv_urls distinct_fold_delete)
    with urls None show ?thesis by (simp add: indexAssetFileUrls_eq)
  next
    case (Some r)
    then have "(asset_id (asset_objects s a), r) \<in> set (assetsInBundles s)" by (rule map_of_SomeD)
    with assms have r: "r < next_array s" by (auto simp: index_inv_def)
    have "\<forall>e\<in>set (fold (\<lambda>url l. AList.update url r l) urls (urlsInBundles s)). snd e < next_array s"
    proof
      fix e assume "e \<in> set (fold (\<lambda>url l. AList.update url r l) urls (urlsInBundles s))"
      then have "snd e \<in> snd ` set (fold (\<lambda>url l. AList.update url r l) urls (urlsInBundles s))"
        by simp
      with vals_fold_update [of r urls "urlsInBundles s"]
      have "snd e = r \<or> snd e \<in> snd ` set (urlsInBundles s)" by blast
      with r b show "snd e < next_array s" by auto
    qed
    then have "index_inv (s\<lparr>urlsInBundles := fold (\<lambda>url l. AList.update url r l) urls (urlsInBundles s)\<rparr>)"
      using assms d by (intro index_inv_urls distinct_fold_update)
    with urls Some show ?thesis by (simp add: indexAssetFileUrls_eq)
  qed
qed

lemma index_inv_alloc:
  assumes "index_inv s" and "map_of (assetsInBundles s) k = None"
  shows "index_inv (s\<lparr>arrays := (arrays s)(next_array s := [b]),
                     next_array := Suc (next_array s),
                     assetsInBundles := AList.update k (next_array s) (assetsInBundles s)\<rparr>)"
proof -
  from assms(1) have bound: "\<forall>e\<in>set (assetsInBundles s). snd e < next_array s"
    by (simp add: index_inv_def)
  then have fresh: "next_array s \<notin> snd ` set (assetsInBundles s)" by auto
  from assms(2) have "k \<notin> fst ` set (assetsInBundles s)" by (simp add: map_of_eq_None_iff)
  with assms(1) fresh bound show ?thesis
    unfolding index_inv_def update_absent [OF assms(2)]
    by (auto simp: less_Suc_eq)
qed

lemma index_inv_push:
  assumes "index_inv s" and "map_of (assetsInBundles s) k = Some r" and "b \<notin> set (arrays s r)"
  shows "index_inv (s\<lparr>arrays := (arrays s)(r := arrays s r @ [b])\<rparr>)"
  using assms unfolding index_inv_def by auto

lemma indexAssetInBundle_inv:
  assumes "index_inv s"
  shows "index_inv (indexAssetInBundle s k b)"
proof (cases "map_of (assetsInBundles s) k")
  case None
  then show ?thesis
    unfolding indexAssetInBundle_def Let_def
    by (auto split: option.splits intro!: indexAssetFileUrls_inv index_inv_alloc assms)
next
  case (Some r)
  then show ?thesis
    unfolding indexAssetInBundle_def Let_def
    by (auto split: option.splits intro!: indexAssetFileUrls_inv index_inv_push assms)
qed

lemma fold_indexAssetInBundle_inv:
  "index_inv s \<Longrightarrow> index_inv (fold (\<lambda>assetId s'. indexAssetInBundle s' assetId b) ks s)"
  by (induction ks arbitrary: s) (simp_all add: indexAssetInBundle_inv)

lemma onAssetAdded_inv:
  assumes "index_inv s"
  shows "index_inv (onAssetAdded s a)"
proof -
  have "index_inv (s\<lparr>bundleAssets := x, assets_callbacks := y\<rparr>)" for x y
    using assms by (simp add: index_inv_def)
  then show ?thesis
    unfolding onAssetAdded_def Let_def
    by (auto intro!: fold_indexAssetInBundle_inv indexAssetFileUrls_inv assms)
qed

lemma BundleRegistry_inv: "index_inv (BundleRegistry objs get cbs)"
  by (simp add: index_inv_def BundleRegistry_def)

subsection \<open>Registering and unregistering a bundle\<close>












subsection \<open>Reachable states\<close>

lemma registry_inv_cong:
  fixes s s' :: state
  assumes "registry_inv s"
    and "assetsInBundles s' = assetsInBundles s" and "urlsInBundles s' = urlsInBundles s"
    and "arrays s' = arrays s" and "next_array s' = next_array s"
    and "distinct (map fst (fileRequests s'))"
  shows "registry_inv s'"
  using assms by (simp add: registry_inv_def index_inv_def urls_normalized_def)

lemma indexAssetInBundle_requests:
  "fileRequests (indexAssetInBundle s k b) = fileRequests s"
  unfolding indexAssetInBundle_def Let_def
  by (auto split: option.splits simp: indexAssetFileUrls_frame)

lemma fold_indexAssetInBundle_requests:
  "fileRequests (fold (\<lambda>assetId s'. indexAssetInBundle s' assetId b) ks s) = fileRequests s"
  by (induction ks arbitrary: s) (simp_all add: indexAssetInBundle_requests)

lemma onAssetAdded_requests: "fileRequests (onAssetAdded s a) = fileRequests s"
  unfolding onAssetAdded_def Let_def
  by (simp add: fold_indexAssetInBundle_requests indexAssetFileUrls_frame)

lemma onAssetAdded_registry_inv:
  "registry_inv s \<Longrightarrow> registry_inv (onAssetAdded s a)"
  by (simp add: registry_inv_def onAssetAdded_inv onAssetAdded_normalized onAssetAdded_requests)

lemma fold_delete_urls:
  "fold (\<lambda>url s'. s'\<lparr>urlsInBundles := AList.delete url (urlsInBundles s')\<rparr>) urls s =
     s\<lparr>urlsInBundles := fold (\<lambda>url l. AList.delete url l) urls (urlsInBundles s)\<rparr>"
  by (induction urls arbitrary: s) simp_all

lemma onAssetRemoved_registry_inv:
  assumes "registry_inv s" and "onAssetRemoved s a = Inr s'"
  shows "registry_inv s'"
proof (cases "asset_type (asset_objects s a) = ''bundle''")
  case True
  from assms(1) have d1: "distinct (map fst (assetsInBundles s))"
    and d2: "distinct (map snd (assetsInBundles s))"
    and d3: "distinct (map fst (urlsInBundles s))"
    and b1: "\<forall>e\<in>set (assetsInBundles s). snd e < next_array s \<and> distinct (arrays s (snd e))"
    and b2: "\<forall>e\<in>set (urlsInBundles s). snd e < next_array s"
    and n: "\<forall>e\<in>set (urlsInBundles s). CHR ''?'' \<notin> set (fst e)"
    and q: "distinct (map fst (fileRequests s))"
    by (simp_all add: registry_inv_def index_inv_def urls_normalized_def)
  from assms(2) have s': "s' =
       s\<lparr>bundleAssets := AList.delete (asset_id (asset_objects s a)) (bundleAssets s),
            assets_callbacks :=
              off (''error:'' @ asset_id (asset_objects s a)) OnBundleError
                (off (''load:'' @ asset_id (asset_objects s a)) OnBundleLoaded (assets_callbacks s)),
            arrays := (\<lambda>r. if r \<in> snd ` set (assetsInBundles s) then remove1 a (arrays s r)
                            else arrays s r),
            assetsInBundles := filter (\<lambda>e. arrays s (snd e) \<noteq> [a]) (assetsInBundles s),
            urlsInBundles :=
              filter (\<lambda>e. \<not> (snd e \<in> snd ` set (assetsInBundles s) \<and> arrays s (snd e) = [a]))
                (urlsInBundles s)\<rparr>"
    unfolding onAssetRemoved_bundle [OF True d1 d2] by simp
  define aib where "aib = filter (\<lambda>e. arrays s (snd e) \<noteq> [a]) (assetsInBundles s)"
  define uib where "uib =
     filter (\<lambda>e. \<not> (snd e \<in> snd ` set (assetsInBundles s) \<and> arrays s (snd e) = [a]))
       (urlsInBundles s)"
  define arr where "arr = (\<lambda>r. if r \<in> snd ` set (assetsInBundles s) then remove1 a (arrays s r)
                            else arrays s r)"
  have f: "assetsInBundles s' = aib" "urlsInBundles s' = uib" "arrays s' = arr"
    "next_array s' = next_array s" "fileRequests s' = fileRequests s"
    by (simp_all add: s' aib_def uib_def arr_def)
  have 1: "distinct (map fst aib)" "distinct (map snd aib)" "distinct (map fst uib)"
    using d1 d2 d3 by (simp_all add: aib_def uib_def distinct_map_filter)
  have 2: "\<forall>e\<in>set aib. snd e < next_array s \<and> distinct (arr (snd e))"
    using b1 by (auto simp: aib_def arr_def)
  have 3: "\<forall>e\<in>set uib. snd e < next_array s" "\<forall>e\<in>set uib. CHR ''?'' \<notin> set (fst e)"
    using b2 n by (auto simp: uib_def)
  show ?thesis
    unfolding registry_inv_def index_inv_def urls_normalized_def f
    using 1 2 3 q by simp
next
  case False
  show ?thesis
  proof (cases "map_of (assetsInBundles s) (asset_id (asset_objects s a))")
    case None
    with False assms show ?thesis by (simp add: onAssetRemoved_def Let_def)
  next
    case (Some r)
    with False assms(2) obtain urls where
      s': "s' = s\<lparr>assetsInBundles := AList.delete (asset_id (asset_objects s a)) (assetsInBundles s),
                  urlsInBundles := fold (\<lambda>url l. AList.delete url l) urls (urlsInBundles s)\<rparr>"
      by (auto simp: onAssetRemoved_def Let_def fold_delete_urls split: option.splits)
    have sub: "set (fold (\<lambda>url l. AList.delete url l) urls (urlsInBundles s)) \<subseteq> set (urlsInBundles s)"
      by (rule vals_fold_delete)
    have d: "distinct (map fst (fold (\<lambda>url l. AList.delete url l) urls (urlsInBundles s)))"
      using assms(1) by (intro distinct_fold_delete) (simp add: registry_inv_def index_inv_def)
    have a1: "distinct (map fst (AList.delete (asset_id (asset_objects s a)) (assetsInBundles s)))"
      and a2: "distinct (map snd (AList.delete (asset_id (asset_objects s a)) (assetsInBundles s)))"
      and a3: "set (AList.delete (asset_id (asset_objects s a)) (assetsInBundles s))
                 \<subseteq> set (assetsInBundles s)"
      using assms(1)
      by (auto simp: registry_inv_def index_inv_def delete_filter distinct_map_filter)
    show ?thesis
      unfolding s' registry_inv_def index_inv_def urls_normalized_def
      using assms(1) sub d a1 a2 a3
      by (auto simp: registry_inv_def index_inv_def urls_normalized_def)
  qed
qed

lemma loadUrl_registry_inv:
  assumes "registry_inv s" and "loadUrl s url cb = Inr s'"
  shows "registry_inv s'"
proof -
  from assms(1) have q: "distinct (map fst (fileRequests s))" by (simp add: registry_inv_def)
  from assms(2) have "assetsInBundles s' = assetsInBundles s \<and> urlsInBundles s' = urlsInBundles s \<and>
    arrays s' = arrays s \<and> next_array s' = next_array s \<and> distinct (map fst (fileRequests s'))"
    using q by (auto simp: loadUrl_def distinct_update split: option.splits if_splits)
  then show ?thesis by (intro registry_inv_cong [OF assms(1)]) simp_all
qed

lemma failUrl_registry_inv:
  assumes "registry_inv s"
  shows "registry_inv (failUrl err url s)"
proof (rule registry_inv_cong [OF assms])
  from assms have "distinct (map fst (fileRequests s))" by (simp add: registry_inv_def)
  then show "distinct (map fst (fileRequests (failUrl err url s)))"
    by (simp add: failUrl_eq distinct_map_filter)
qed (simp_all add: failUrl_eq)

lemma onBundleError_registry_inv:
  "registry_inv s \<Longrightarrow> registry_inv (onBundleError s err b)"
proof -
  have "registry_inv s \<Longrightarrow> registry_inv (fold (failUrl err) ks s)" for ks
    by (induction ks arbitrary: s) (simp_all add: failUrl_registry_inv)
  then show "registry_inv s \<Longrightarrow> registry_inv (onBundleError s err b)"
    by (simp add: onBundleError_def)
qed

lemma resolveRequests_frame:
  "resolveRequests res url requests s = Inr s' \<Longrightarrow>
   assetsInBundles s' = assetsInBundles s \<and> urlsInBundles s' = urlsInBundles s \<and>
   arrays s' = arrays s \<and> next_array s' = next_array s \<and> fileRequests s' = fileRequests s"
  by (induction requests arbitrary: s) (auto split: option.splits)

lemma resolveUrl_registry_inv:
  assumes "registry_inv s" and "resolveUrl b res url s = Inr s'"
  shows "registry_inv s'"
proof -
  from assms(1) have q: "distinct (map fst (fileRequests s))" by (simp add: registry_inv_def)
  from assms(2) have "assetsInBundles s' = assetsInBundles s \<and> urlsInBundles s' = urlsInBundles s \<and>
    arrays s' = arrays s \<and> next_array s' = next_array s \<and> distinct (map fst (fileRequests s'))"
    using q
    by (auto simp: resolveUrl_def distinct_delete split: option.splits if_splits sum.splits
        dest!: resolveRequests_frame)
  then show ?thesis by (intro registry_inv_cong [OF assms(1)]) simp_all
qed

lemma resolveUrls_registry_inv:
  "registry_inv s \<Longrightarrow> resolveUrls b res ks s = Inr s' \<Longrightarrow> registry_inv s'"
  by (induction ks arbitrary: s) (auto split: sum.splits dest: resolveUrl_registry_inv)

lemma onBundleLoaded_registry_inv:
  assumes "registry_inv s" and "onBundleLoaded s b = Inr s'"
  shows "registry_inv s'"
  using assms
  by (auto simp: onBundleLoaded_def split: option.splits
      dest: resolveUrls_registry_inv intro: onBundleError_registry_inv)

text \<open>
  Every state that the registry reaches has well-formed indices, normalized URL keys and a
  queue with distinct keys: the hypotheses of the theorems of this theory hold of it.
\<close>

theorem reachable_registry_inv: "reachable s \<Longrightarrow> registry_inv s"
proof (induction rule: reachable.induct)
  case (created objs get cbs)
  have "distinct (map fst (fileRequests (BundleRegistry objs get cbs)))"
    by (simp add: BundleRegistry_def)
  then show ?case
    unfolding registry_inv_def
    by (intro conjI BundleRegistry_inv BundleRegistry_normalized)
next
  case (assets_changed s objs get)
  from assets_changed.IH have q: "distinct (map fst (fileRequests s))"
    by (simp add: registry_inv_def)
  show ?case
    by (rule registry_inv_cong [OF assets_changed.IH]) (simp_all add: q)
next
  case (added s a)
  then show ?case by (intro onAssetAdded_registry_inv)
next
  case (removed s a s')
  from removed.IH removed.hyps(2) show ?case by (rule onAssetRemoved_registry_inv)
next
  case (requested s url cb s')
  from requested.IH requested.hyps(2) show ?case by (rule loadUrl_registry_inv)
next
  case (loaded s b s')
  from loaded.IH loaded.hyps(2) show ?case by (rule onBundleLoaded_registry_inv)
next
  case (failed s err b)
  then show ?case by (intro onBundleError_registry_inv)
qed

subsection \<open>Requesting a URL with a query string\<close>

text \<open>
  Claim C5, as stated, fails: the texture is covered by a loaded bundle under \<^verbatim>\<open>tex.png\<close>;
  requested with its query string it is not found, requested stripped it is resolved.
\<close>

theorem loadUrl_keeps_query:
  "normalizeUrl ''tex.png?t=5'' = ''tex.png'' \<and>
   loadUrl ex_loaded ''tex.png?t=5'' 9 =
     Inr (ex_loaded\<lparr>calls := [Call 9 (Some ''URL tex.png?t=5 not found in any bundles'') None]\<rparr>) \<and>
   loadUrl ex_loaded (normalizeUrl ''tex.png?t=5'') 9 =
     Inr (ex_loaded\<lparr>calls := [Call 9 None (Some (BlobUrl 5 ''tex.png''))]\<rparr>) \<and>
   loadUrl ex_loaded ''tex.png?t=5'' 9 \<noteq> loadUrl ex_loaded (normalizeUrl ''tex.png?t=5'') 9"
proof -
  have n: "normalizeUrl ''tex.png?t=5'' = ''tex.png''" by (simp add: normalizeUrl_def)
  have 1: "loadUrl ex_loaded ''tex.png?t=5'' 9 =
     Inr (ex_loaded\<lparr>calls := [Call 9 (Some ''URL tex.png?t=5 not found in any bundles'') None]\<rparr>)"
    by (simp add: loadUrl_def findLoadedOrLoadingBundleForUrl_def ex_loaded_def ex_pending_def
        ex_registry_eq)
  have 2: "loadUrl ex_loaded ''tex.png'' 9 =
     Inr (ex_loaded\<lparr>calls := [Call 9 None (Some (BlobUrl 5 ''tex.png''))]\<rparr>)"
    by (simp add: loadUrl_def findLoadedOrLoadingBundleForUrl_def ex_loaded_def ex_pending_def
        ex_registry_eq ex_defs decodeURIComponent_plain)
  have "calls (ex_loaded\<lparr>calls := [Call 9 (Some ''URL tex.png?t=5 not found in any bundles'') None]\<rparr>)
      \<noteq> calls (ex_loaded\<lparr>calls := [Call 9 None (Some (BlobUrl 5 ''tex.png''))]\<rparr>)"
    by simp
  then have 3: "ex_loaded\<lparr>calls := [Call 9 (Some ''URL tex.png?t=5 not found in any bundles'') None]\<rparr>
      \<noteq> ex_loaded\<lparr>calls := [Call 9 None (Some (BlobUrl 5 ''tex.png''))]\<rparr>"
    by (rule contrapos_nn) (erule arg_cong)
  show ?thesis
    unfolding n 1 2 using 3 by simp
qed

text \<open>
  Claim C5, amended. \<^verbatim>\<open>loadUrl\<close> does not normalize: it searches and queues under the URL as
  it was passed. The keys of the URL index are normalized when an asset is indexed, in every
  state that the registry reaches; hence a URL with a query string is never found and the
  continuation is called with \<^verbatim>\<open>URL <url> not found in any bundles\<close>, the URL unstripped.
  For a URL without a query string normalizing changes nothing.
\<close>

theorem loadUrl_query_not_found:
  "(urls_normalized s \<and> CHR ''?'' \<in> set u \<longrightarrow>
      loadUrl s u cb =
        Inr (s\<lparr>calls := calls s @ [Call cb (Some (''URL '' @ u @ '' not found in any bundles'')) None]\<rparr>)) \<and>
   (reachable s \<longrightarrow> urls_normalized s) \<and>
   (CHR ''?'' \<notin> set u \<longrightarrow> normalizeUrl u = u)"
proof (intro conjI impI)
  assume "urls_normalized s \<and> CHR ''?'' \<in> set u"
  then have "map_of (urlsInBundles s) u = None" by (simp add: lookup_query_url)
  then show "loadUrl s u cb =
        Inr (s\<lparr>calls := calls s @ [Call cb (Some (''URL '' @ u @ '' not found in any bundles'')) None]\<rparr>)"
    by (simp add: loadUrl_def findLoadedOrLoadingBundleForUrl_def)
next
  assume "reachable s"
  then have "registry_inv s" by (rule reachable_registry_inv)
  then show "urls_normalized s" by (simp add: registry_inv_def)
next
  assume "CHR ''?'' \<notin> set u"
  then show "normalizeUrl u = u" by (rule normalizeUrl_id)
qed

lemma ex_loaded_reachable: "reachable ex_loaded"
proof -
  have r1: "reachable ex_registry"
    unfolding ex_registry_def by (intro reachable.added reachable.created)
  have l1: "loadUrl ex_registry ''tex.png'' 7 = Inr (ex_registry\<lparr>fileRequests := [(''tex.png'', [7])]\<rparr>)"
    by (simp add: loadUrl_def findLoadedOrLoadingBundleForUrl_def ex_registry_eq ex_defs)
  have l2: "loadUrl (ex_registry\<lparr>fileRequests := [(''tex.png'', [7])]\<rparr>) ''tex.png'' 8 = Inr ex_pending"
    by (simp add: loadUrl_def findLoadedOrLoadingBundleForUrl_def ex_pending_def ex_registry_eq ex_defs)
  have r3: "reachable ex_pending"
    using reachable.requested [OF reachable.requested [OF r1 l1] l2] .
  have e: "ex_loaded = ex_pending\<lparr>asset_objects :=
          ex_objects(0 := ex_bundle\<lparr>loaded := True, loading := False, resource := Some 5\<rparr>),
          assets_get := ex_get\<rparr>"
    by (simp add: ex_loaded_def ex_pending_def ex_registry_eq)
  show ?thesis unfolding e using r3 by (rule reachable.assets_changed)
qed

theorem loadUrl_query_not_found_witness:
  "reachable ex_loaded \<and> urls_normalized ex_loaded \<and> CHR ''?'' \<in> set ''tex.png?t=5'' \<and>
   loadUrl ex_loaded ''tex.png?t=5'' 9 =
     Inr (ex_loaded\<lparr>calls := [Call 9 (Some ''URL tex.png?t=5 not found in any bundles'') None]\<rparr>)"
proof -
  note inst = loadUrl_query_not_found [of ex_loaded "''tex.png?t=5''" 9]
  from inst ex_loaded_reachable have n: "urls_normalized ex_loaded" by blast
  have c: "calls ex_loaded = []" by (simp add: ex_loaded_def ex_pending_def ex_registry_eq)
  from inst n have "loadUrl ex_loaded ''tex.png?t=5'' 9 =
     Inr (ex_loaded\<lparr>calls := [Call 9 (Some ''URL tex.png?t=5 not found in any bundles'') None]\<rparr>)"
    by (simp add: c)
  with ex_loaded_reachable n show ?thesis by simp
qed

end
